theory Spec2Isabelle
  imports Main "HOL-Library.Word"
begin

unbundle bit_operations_syntax

section \<open>C strings and the C library\<close>

text \<open>
  A buffer of bytes is a \<open>string\<close>. The C code reads a buffer as the bytes before the
  first terminator, which is \<open>c_str\<close>. The functions of this section are the C
  library's (stdio, string.h, stdlib.h), written out for the calls the sources make.
\<close>

definition NUL :: char where
  "NUL = CHR 0x00"

definition NL :: char where
  "NL = CHR 0x0A"

definition c_str :: "string \<Rightarrow> string" where
  "c_str buf = takeWhile (\<lambda>c. c \<noteq> NUL) buf"

text \<open>\<open>strchr s c\<close>: offset of the first \<open>c\<close> in \<open>s\<close>, \<open>None\<close> for the null pointer.\<close>

fun strchr :: "string \<Rightarrow> char \<Rightarrow> nat option" where
  "strchr [] c = None"
| "strchr (x # xs) c = (if x = c then Some 0 else map_option Suc (strchr xs c))"

text \<open>\<open>strrchr s c\<close>: offset of the last \<open>c\<close> in \<open>s\<close>.\<close>

fun strrchr :: "string \<Rightarrow> char \<Rightarrow> nat option" where
  "strrchr [] c = None"
| "strrchr (x # xs) c =
     (case strrchr xs c of
        Some i \<Rightarrow> Some (Suc i)
      | None \<Rightarrow> (if x = c then Some 0 else None))"

text \<open>
  \<open>snprintf buf size\<close> of an already formatted text: the buffer receives at most
  \<open>size - 1\<close> bytes of it.
\<close>

definition snprintf :: "nat \<Rightarrow> string \<Rightarrow> string" where
  "snprintf sz s = take (sz - 1) s"

text \<open>
  Modelled from the spec: \<open>safe_strncpy\<close> is declared in droidspace.h and defined outside
  the sources at hand. The spec's "capture the current TERM" is a copy into the
  destination buffer, which holds at most \<open>size - 1\<close> bytes before its terminator.
\<close>

definition safe_strncpy :: "string \<Rightarrow> nat \<Rightarrow> string" where
  "safe_strncpy src sz = take (sz - 1) (c_str src)"

text \<open>
  \<open>fgets buf size fp\<close> on a stream whose unread bytes are \<open>s\<close>: \<open>fgets_take (size - 1) s\<close>
  is the pair of the bytes stored (up to and including the first newline, at most
  \<open>size - 1\<close> of them) and the bytes left unread; at end of file \<open>fgets\<close> returns the null
  pointer and stores nothing.
\<close>

fun fgets_take :: "nat \<Rightarrow> string \<Rightarrow> string \<times> string" where
  "fgets_take 0 s = ([], s)"
| "fgets_take (Suc n) [] = ([], [])"
| "fgets_take (Suc n) (c # cs) =
     (if c = NL then ([c], cs)
      else (case fgets_take n cs of (l, r) \<Rightarrow> (c # l, r)))"

definition fgets :: "nat \<Rightarrow> string \<Rightarrow> (string \<times> string) option" where
  "fgets sz s = (if s = [] then None else Some (fgets_take (sz - 1) s))"

lemma fgets_take_length:
  "length (fst (fgets_take n s)) + length (snd (fgets_take n s)) = length s"
  by (induction n s rule: fgets_take.induct) (auto split: prod.splits)

lemma fgets_take_shorter:
  "0 < n \<Longrightarrow> s \<noteq> [] \<Longrightarrow> length (snd (fgets_take n s)) < length s"
proof -
  assume "0 < n" and "s \<noteq> []"
  then have "fst (fgets_take n s) \<noteq> []"
    by (cases n; cases s) (auto split: prod.splits)
  then have "0 < length (fst (fgets_take n s))"
    by simp
  with fgets_take_length [of n s] show ?thesis
    by linarith
qed

text \<open>
  The loop \<open>while (fgets(line, size, fp)) { ... }\<close> reads the stream into the list of
  buffers it sees, in order. Every buffer of the sources has at least two bytes; with a
  smaller one \<open>fgets\<close> stores no byte and the loop would not advance.
\<close>

function fgets_all :: "nat \<Rightarrow> string \<Rightarrow> string list" where
  "fgets_all sz s =
     (if sz < 2 then []
      else (case fgets sz s of
              None \<Rightarrow> []
            | Some (line, rest) \<Rightarrow> line # fgets_all sz rest))"
  by pat_completeness auto
termination
proof (relation "measure (\<lambda>(sz, s). length s)")
  show "wf (measure (\<lambda>(sz, s). length s))" by simp
next
  fix sz :: nat and s :: string and x2 :: "string \<times> string" and line rest :: string
  assume "\<not> sz < 2" and "fgets sz s = Some x2" and "(line, rest) = x2"
  then have "s \<noteq> []" and "rest = snd (fgets_take (sz - 1) s)" and "0 < sz - 1"
    by (auto simp: fgets_def split: if_splits)
  then show "((sz, rest), (sz, s)) \<in> measure (\<lambda>(sz, s). length s)"
    using fgets_take_shorter [of "sz - 1" s] by simp
qed

declare fgets_all.simps [simp del]

section \<open>The process environment (stdlib.h)\<close>

text \<open>
  \<open>environ\<close> is the list of the process's variables in order. \<open>getenv\<close> returns the
  first entry of a name; \<open>setenv\<close> refuses an empty name and a name with \<open>=\<close> (EINVAL),
  keeps an existing value when \<open>overwrite\<close> is 0, and otherwise replaces the entry or
  appends a new one; \<open>clearenv\<close> empties the list.
\<close>

type_synonym environ = "(string \<times> string) list"

definition getenv :: "environ \<Rightarrow> string \<Rightarrow> string option" where
  "getenv env name = map_of env name"

fun env_put :: "string \<Rightarrow> string \<Rightarrow> environ \<Rightarrow> environ" where
  "env_put k v [] = [(k, v)]"
| "env_put k v ((k', v') # e) =
     (if k' = k then (k, v) # e else (k', v') # env_put k v e)"

definition setenv :: "string \<Rightarrow> string \<Rightarrow> int \<Rightarrow> environ \<Rightarrow> environ" where
  "setenv name val overwrite env =
     (if name = [] \<or> CHR ''='' \<in> set name then env
      else if getenv env name \<noteq> None \<and> overwrite = 0 then env
      else env_put name val env)"

definition clearenv :: "environ \<Rightarrow> environ" where
  "clearenv env = []"

section \<open>environment.c\<close>

text \<open>\<open>set_container_defaults(term)\<close>; \<open>None\<close> is the null pointer.\<close>

definition set_container_defaults :: "string option \<Rightarrow> environ \<Rightarrow> environ" where
  "set_container_defaults term env =
     (let env = setenv ''PATH''
                  ''/usr/local/sbin:/usr/local/bin:/usr/sbin:/usr/bin:/sbin:/bin'' 1 env;
          env = setenv ''TERM''
                  (case term of Some t \<Rightarrow> t | None \<Rightarrow> ''xterm-256color'') 1 env;
          env = setenv ''HOME'' ''/root'' 1 env;
          env = setenv ''container'' ''droidspaces'' 1 env
      in env)"

text \<open>\<open>setup_container_env()\<close>: the scrub-and-default mode.\<close>

definition setup_container_env :: "environ \<Rightarrow> environ" where
  "setup_container_env env =
     (let saved_term = getenv env ''TERM'';
          term_buf = ''xterm-256color'';
          term_buf = (case saved_term of
                        Some t \<Rightarrow> safe_strncpy t 64
                      | None \<Rightarrow> term_buf);
          env = clearenv env
      in set_container_defaults (Some term_buf) env)"

text \<open>
  The body of the loop of \<open>load_etc_environment\<close> on one buffer filled by \<open>fgets\<close>.
\<close>

definition load_env_line :: "string \<Rightarrow> environ \<Rightarrow> environ" where
  "load_env_line buf env =
     (let line = c_str buf;
          line = (case strchr line NL of Some i \<Rightarrow> take i line | None \<Rightarrow> line)
      in if line = [] \<or> hd line = CHR ''#'' then env
         else (case strchr line CHR ''='' of
                 None \<Rightarrow> env
               | Some eq \<Rightarrow>
                   (let key = take eq line;
                        val = drop (Suc eq) line;
                        vlen = length val;
                        val = (if vlen \<ge> 2 \<and>
                                  ((hd val = CHR 0x22 \<and> last val = CHR 0x22) \<or>
                                   (hd val = CHR 0x27 \<and> last val = CHR 0x27))
                               then butlast (tl val) else val)
                    in setenv key val 1 env)))"

text \<open>
  \<open>load_etc_environment()\<close>. The first argument is what \<open>fopen("/etc/environment", "r")\<close>
  gives: the file's bytes, or \<open>None\<close> when the file cannot be opened. The function is
  \<open>void\<close>: its whole effect is the environment it leaves.
\<close>

definition load_etc_environment :: "string option \<Rightarrow> environ \<Rightarrow> environ" where
  "load_etc_environment envf env =
     (case envf of
        None \<Rightarrow> env
      | Some bytes \<Rightarrow> foldl (\<lambda>e line. load_env_line line e) env (fgets_all 512 bytes))"

section \<open>The host as the sources see it\<close>

text \<open>
  What the sources ask of the system is answered by a \<open>host\<close>: the environment,
  \<open>access(path, F_OK) == 0\<close>, the output of a command run by \<open>popen(cmd, "r")\<close>
  (\<open>None\<close> when \<open>popen\<close> returns the null pointer), whether \<open>fopen(path, "a")\<close>
  succeeds, and \<open>grep_file\<close>, a helper declared in droidspace.h and defined outside
  the sources at hand, taken as given. The \<open>ds_log\<close>, \<open>ds_warn\<close> and \<open>ds_error\<close>
  calls only print and are left out.
\<close>

record host =
  h_environ :: environ
  h_access :: "string \<Rightarrow> bool"
  h_popen :: "string \<Rightarrow> string option"
  h_fopen_append :: "string \<Rightarrow> bool"
  h_grep_file :: "string \<Rightarrow> string \<Rightarrow> bool"

text \<open>
  The configuration record \<open>struct ds_config\<close> is declared in droidspace.h; these are
  the fields the sources read. A \<open>char\<close> array field holds a C string.
\<close>

record ds_config =
  container_name :: string
  hostname :: string
  enable_ipv6 :: int
  hw_access :: int
  termux_x11 :: int
  tty_count :: int

text \<open>What a function does to the system, in the order it does it.\<close>

datatype effect =
    Sethostname string
  | Write_file string string
  | Append_file string string
  | Popen string

section \<open>android.c\<close>

text \<open>
  \<open>is_android()\<close>. The result is cached in a static variable; on one host the cached
  value and the computed one are the same.
\<close>

definition is_android :: "host \<Rightarrow> bool" where
  "is_android h =
     (getenv (h_environ h) ''ANDROID_ROOT'' \<noteq> None \<or> h_access h ''/system/bin/app_process'')"

text \<open>
  One property query of \<open>android_fill_dns_from_props\<close>: \<open>popen\<close> the command; when it
  runs, \<open>fgets\<close> its first line into the buffer of \<open>sz\<close> bytes and cut it at the newline.
  The buffer keeps its old content \<open>buf\<close> when \<open>popen\<close> or \<open>fgets\<close> fails.
\<close>

definition read_prop :: "host \<Rightarrow> string \<Rightarrow> nat \<Rightarrow> string \<Rightarrow> string" where
  "read_prop h cmd sz buf =
     (case h_popen h cmd of
        None \<Rightarrow> buf
      | Some out \<Rightarrow>
          (case fgets sz out of
             None \<Rightarrow> buf
           | Some (l, rest) \<Rightarrow>
               (let b = c_str l
                in case strchr b NL of Some i \<Rightarrow> take i b | None \<Rightarrow> b)))"

definition dns_props :: "string list" where
  "dns_props = [''net.dns1'', ''net.dns2'', ''net.eth0.dns1'', ''net.eth0.dns2'',
                ''net.wlan0.dns1'', ''net.wlan0.dns2'']"

text \<open>
  The loop \<open>for (i = 0; props[i] && !dns1[0]; i += 2)\<close> over the rest of the table from
  \<open>props[i]\<close> on; the state is \<open>(dns1, dns2, commands run so far)\<close>. The table has an
  even number of entries, so the loop never stands on its last one alone; the second
  equation is the guard \<open>props[i + 1]\<close> being the null pointer.
\<close>

fun dns_loop :: "host \<Rightarrow> nat \<Rightarrow> string list \<Rightarrow> string \<times> string \<times> string list
                 \<Rightarrow> string \<times> string \<times> string list" where
  "dns_loop h sz [] st = st"
| "dns_loop h sz [p] (dns1, dns2, cmds) =
     (if dns1 \<noteq> [] then (dns1, dns2, cmds)
      else (let cmd1 = snprintf 128 (''getprop '' @ p)
            in (read_prop h cmd1 sz dns1, dns2, cmds @ [cmd1])))"
| "dns_loop h sz (p # q # ps) (dns1, dns2, cmds) =
     (if dns1 \<noteq> [] then (dns1, dns2, cmds)
      else (let cmd1 = snprintf 128 (''getprop '' @ p);
                dns1 = read_prop h cmd1 sz dns1;
                cmd2 = snprintf 128 (''getprop '' @ q)
            in if dns1 \<noteq> []
               then dns_loop h sz ps (dns1, read_prop h cmd2 sz dns2, cmds @ [cmd1, cmd2])
               else dns_loop h sz ps (dns1, dns2, cmds @ [cmd1])))"

text \<open>
  \<open>android_fill_dns_from_props(dns1, dns2, size)\<close>: the return value, the two buffers
  as it leaves them, and the commands it ran.
\<close>

definition android_fill_dns_from_props ::
    "host \<Rightarrow> string \<Rightarrow> string \<Rightarrow> nat \<Rightarrow> int \<times> string \<times> string \<times> string list" where
  "android_fill_dns_from_props h dns1 dns2 sz =
     (if \<not> is_android h then (- 1, dns1, dns2, [])
      else (case dns_loop h sz dns_props ([], [], []) of
              (d1, d2, cmds) \<Rightarrow> ((if d1 \<noteq> [] then 0 else - 1), d1, d2, cmds)))"

section \<open>network.c\<close>

definition TAB :: char where
  "TAB = CHR 0x09"

text \<open>
  \<open>fix_networking_rootfs(cfg)\<close>: the return value and the effects in order.
  \<open>write_file\<close> is a helper declared in droidspace.h and defined outside the sources at
  hand; a call of it is recorded with its path and content.
\<close>

definition fix_networking_rootfs :: "ds_config \<Rightarrow> host \<Rightarrow> int \<times> effect list" where
  "fix_networking_rootfs cfg h =
     (let hn = c_str (hostname cfg);
          fx1 = (if hn \<noteq> []
                 then [Sethostname hn,
                       Write_file ''/etc/hostname'' (snprintf 128 (hn @ [NL]))]
                 else []);
          hosts_content = snprintf 1024
             (''127.0.0.1'' @ [TAB] @ ''localhost'' @ [NL] @
              ''::1'' @ [TAB, TAB] @ ''localhost ip6-localhost ip6-loopback'' @ [NL] @
              ''127.0.1.1'' @ [TAB] @ hn @ [NL]);
          fx2 = [Write_file ''/etc/hosts'' hosts_content];
          dns1 = ''8.8.8.8'';
          dns2 = ''8.8.4.4'';
          (dns1, dns2, cmds) =
             (if is_android h
              then (case android_fill_dns_from_props h dns1 dns2 64 of
                      (r, d1, d2, cmds) \<Rightarrow> (d1, d2, cmds))
              else (dns1, dns2, []));
          resolv_content =
             (if dns2 \<noteq> []
              then snprintf 256 (''nameserver '' @ dns1 @ [NL] @
                                 ''nameserver '' @ dns2 @ [NL])
              else snprintf 256 (''nameserver '' @ dns1 @ [NL]));
          fx3 = map Popen cmds @ [Write_file ''/etc/resolv.conf'' resolv_content];
          fx4 = (if is_android h \<and> h_access h ''/etc/group''
                    \<and> \<not> h_grep_file h ''/etc/group'' ''aid_inet''
                    \<and> h_fopen_append h ''/etc/group''
                 then [Append_file ''/etc/group''
                         (''aid_inet:x:3003:'' @ [NL] @ ''aid_net_raw:x:3004:'' @ [NL] @
                          ''aid_net_admin:x:3005:'' @ [NL])]
                 else [])
      in (0, fx1 @ fx2 @ fx3 @ fx4))"

text \<open>
  The pieces of a text between the occurrences of a separator: its lines for the
  newline, the fields of a record for the colon, the items of a user list for the comma.
\<close>

fun split_on :: "char \<Rightarrow> string \<Rightarrow> string list" where
  "split_on c [] = [[]]"
| "split_on c (x # xs) =
     (if x = c then [] # split_on c xs
      else (case split_on c xs of
              [] \<Rightarrow> [[x]]
            | w # ws \<Rightarrow> (x # w) # ws))"

definition has_line_from :: "string \<Rightarrow> string \<Rightarrow> bool" where
  "has_line_from pre content =
     list_ex (\<lambda>l. take (length pre) l = pre) (split_on NL content)"

text \<open>Hosts and a configuration to run the functions on.\<close>

definition linux_host :: host where
  "linux_host =
     \<lparr>h_environ = [], h_access = (\<lambda>p. False), h_popen = (\<lambda>cmd. None),
      h_fopen_append = (\<lambda>p. True), h_grep_file = (\<lambda>p w. False)\<rparr>"

text \<open>
  An Android host whose property store has none of the DNS properties: \<open>getprop\<close> of an
  unset property prints an empty line.
\<close>

definition android_host_no_dns :: host where
  "android_host_no_dns =
     \<lparr>h_environ = [(''ANDROID_ROOT'', ''/system'')],
      h_access = (\<lambda>p. p = ''/etc/group''),
      h_popen = (\<lambda>cmd. Some [NL]),
      h_fopen_append = (\<lambda>p. True), h_grep_file = (\<lambda>p w. True)\<rparr>"

definition cfg_no_hostname :: ds_config where
  "cfg_no_hostname =
     \<lparr>container_name = ''box'', hostname = [], enable_ipv6 = 0,
      hw_access = 0, termux_x11 = 0, tty_count = 0\<rparr>"

text \<open>The content of /etc/hosts with nothing after the tab of its third line.\<close>

definition hosts_no_name :: string where
  "hosts_no_name =
     ''127.0.0.1'' @ [TAB] @ ''localhost'' @ [NL] @
     ''::1'' @ [TAB, TAB] @ ''localhost ip6-localhost ip6-loopback'' @ [NL] @
     ''127.0.1.1'' @ [TAB] @ [NL]"

text \<open>
  The value of a property as \<open>android_fill_dns_from_props\<close> reads it into an empty
  64-byte buffer, and the spec's rule for the pairs: the first pair whose \<open>dns1\<close> value
  is not empty wins.
\<close>

definition prop_value :: "host \<Rightarrow> string \<Rightarrow> string" where
  "prop_value h p = read_prop h (snprintf 128 (''getprop '' @ p)) 64 []"

definition dns_first_pair :: "host \<Rightarrow> string \<times> string" where
  "dns_first_pair h =
     (case find (\<lambda>(p1, p2). prop_value h p1 \<noteq> [])
             [(''net.dns1'', ''net.dns2''), (''net.eth0.dns1'', ''net.eth0.dns2''),
              (''net.wlan0.dns1'', ''net.wlan0.dns2'')] of
        None \<Rightarrow> ([], [])
      | Some (p1, p2) \<Rightarrow> (prop_value h p1, prop_value h p2))"

section \<open>android_seccomp.c\<close>

text \<open>
  \<open>struct sock_filter\<close> and the macros \<open>BPF_STMT\<close> and \<open>BPF_JUMP\<close> of linux/filter.h,
  with the opcode bits of linux/bpf_common.h.
\<close>

record sock_filter =
  code :: "16 word"
  jt :: "8 word"
  jf :: "8 word"
  k :: "32 word"

definition BPF_STMT :: "16 word \<Rightarrow> 32 word \<Rightarrow> sock_filter" where
  "BPF_STMT c kk = \<lparr>code = c, jt = 0, jf = 0, k = kk\<rparr>"

definition BPF_JUMP :: "16 word \<Rightarrow> 32 word \<Rightarrow> 8 word \<Rightarrow> 8 word \<Rightarrow> sock_filter" where
  "BPF_JUMP c kk t f = \<lparr>code = c, jt = t, jf = f, k = kk\<rparr>"

definition BPF_LD :: "16 word" where "BPF_LD = 0x00"
definition BPF_W :: "16 word" where "BPF_W = 0x00"
definition BPF_ABS :: "16 word" where "BPF_ABS = 0x20"
definition BPF_JMP :: "16 word" where "BPF_JMP = 0x05"
definition BPF_JA :: "16 word" where "BPF_JA = 0x00"
definition BPF_JEQ :: "16 word" where "BPF_JEQ = 0x10"
definition BPF_JSET :: "16 word" where "BPF_JSET = 0x40"
definition BPF_K :: "16 word" where "BPF_K = 0x00"
definition BPF_RET :: "16 word" where "BPF_RET = 0x06"

text \<open>The return values of linux/seccomp.h and the two error numbers.\<close>

definition SECCOMP_RET_ALLOW :: "32 word" where "SECCOMP_RET_ALLOW = 0x7fff0000"
definition SECCOMP_RET_TRAP :: "32 word" where "SECCOMP_RET_TRAP = 0x00030000"
definition SECCOMP_RET_ERRNO :: "32 word" where "SECCOMP_RET_ERRNO = 0x00050000"
definition SECCOMP_RET_DATA :: "32 word" where "SECCOMP_RET_DATA = 0x0000ffff"
definition EPERM :: "32 word" where "EPERM = 1"
definition ENOSYS :: "32 word" where "ENOSYS = 38"

text \<open>
  \<open>struct seccomp_data\<close>: what the kernel hands the filter for one system call.
  \<open>seccomp_load d off\<close> is the 32-bit word at byte offset \<open>off\<close> of it
  (\<open>BPF_LD | BPF_W | BPF_ABS\<close>), on a little-endian machine, as the four
  architectures of the source are: \<open>nr\<close> at 0, \<open>arch\<close> at 4, the instruction pointer
  at 8 and the six 64-bit arguments from 16 on, low word first.
\<close>

record seccomp_data =
  nr :: "32 word"
  arch :: "32 word"
  instruction_pointer :: "64 word"
  args :: "nat \<Rightarrow> 64 word"

definition seccomp_load :: "seccomp_data \<Rightarrow> 32 word \<Rightarrow> 32 word option" where
  "seccomp_load d off =
     (let n = unat off
      in if n = 0 then Some (nr d)
         else if n = 4 then Some (arch d)
         else if n = 8 then Some (ucast (instruction_pointer d))
         else if n = 12 then Some (ucast (drop_bit 32 (instruction_pointer d)))
         else if 16 \<le> n \<and> n < 64 \<and> n mod 8 = 0 then Some (ucast (args d ((n - 16) div 8)))
         else if 16 \<le> n \<and> n < 64 \<and> n mod 8 = 4
              then Some (ucast (drop_bit 32 (args d ((n - 16) div 8))))
         else None)"

text \<open>
  The kernel's interpreter for the instructions the filter uses, on the instructions
  from the current one on, with accumulator \<open>a\<close>. A jump skips forward over the given
  number of instructions. \<open>None\<close>: an instruction outside this set, a load outside
  \<open>seccomp_data\<close>, or running off the end of the program.
\<close>

function bpf_run :: "sock_filter list \<Rightarrow> seccomp_data \<Rightarrow> 32 word \<Rightarrow> 32 word option" where
  "bpf_run [] d a = None"
| "bpf_run (i # rest) d a =
     (if code i = (BPF_RET OR BPF_K) then Some (k i)
      else if code i = (BPF_LD OR BPF_W OR BPF_ABS)
           then (case seccomp_load d (k i) of
                   None \<Rightarrow> None
                 | Some v \<Rightarrow> bpf_run rest d v)
      else if code i = (BPF_JMP OR BPF_JA)
           then bpf_run (drop (unat (k i)) rest) d a
      else if code i = (BPF_JMP OR BPF_JEQ OR BPF_K)
           then bpf_run (drop (unat (if a = k i then jt i else jf i)) rest) d a
      else if code i = (BPF_JMP OR BPF_JSET OR BPF_K)
           then bpf_run (drop (unat (if a AND k i \<noteq> 0 then jt i else jf i)) rest) d a
      else None)"
  by pat_completeness auto
termination
  by (relation "measure (\<lambda>(p, d, a). length p)") auto

text \<open>
  What the build fixes: the architecture the source is compiled for, which selects the
  \<open>AUDIT_ARCH\<close> constant of linux/audit.h in the \<open>#if\<close> chain (the chain has no
  \<open>#else\<close>: on another architecture no comparison is emitted), and the system call
  numbers of sys/syscall.h, taken as given.
\<close>

datatype build_arch = Aarch64 | X86_64 | Arm | I386 | Other_arch

record target =
  t_arch :: build_arch
  NR_reboot :: "32 word"
  NR_keyctl :: "32 word"
  NR_add_key :: "32 word"
  NR_request_key :: "32 word"
  NR_unshare :: "32 word"
  NR_clone :: "32 word"

fun audit_arch :: "build_arch \<Rightarrow> 32 word option" where
  "audit_arch Aarch64 = Some 0xC00000B7"
| "audit_arch X86_64 = Some 0xC000003E"
| "audit_arch Arm = Some 0x40000028"
| "audit_arch I386 = Some 0x40000003"
| "audit_arch Other_arch = None"

definition ns_mask :: "32 word" where
  "ns_mask = 0x7E020000"

text \<open>
  The array \<open>filter[]\<close> of \<open>android_seccomp_setup\<close>, for the values of \<open>is_systemd\<close> and
  \<open>major\<close> at that point. The offsets of \<open>arch\<close>, \<open>nr\<close> and \<open>args[0]\<close> in
  \<open>struct seccomp_data\<close> are 4, 0 and 16.
\<close>

definition seccomp_filter :: "target \<Rightarrow> int \<Rightarrow> int \<Rightarrow> sock_filter list" where
  "seccomp_filter tg is_systemd major =
     [BPF_STMT (BPF_LD OR BPF_W OR BPF_ABS) 4] @
     (case audit_arch (t_arch tg) of
        Some a \<Rightarrow> [BPF_JUMP (BPF_JMP OR BPF_JEQ OR BPF_K) a 1 0]
      | None \<Rightarrow> []) @
     [BPF_STMT (BPF_RET OR BPF_K) SECCOMP_RET_ALLOW,

      BPF_STMT (BPF_LD OR BPF_W OR BPF_ABS) 0,

      BPF_JUMP (BPF_JMP OR BPF_JEQ OR BPF_K) (NR_reboot tg) 0 1,
      BPF_STMT (BPF_RET OR BPF_K) SECCOMP_RET_TRAP,

      BPF_JUMP (BPF_JMP OR BPF_JEQ OR BPF_K) (NR_keyctl tg) 0 1,
      BPF_STMT (BPF_RET OR BPF_K) (SECCOMP_RET_ERRNO OR (ENOSYS AND SECCOMP_RET_DATA)),
      BPF_JUMP (BPF_JMP OR BPF_JEQ OR BPF_K) (NR_add_key tg) 0 1,
      BPF_STMT (BPF_RET OR BPF_K) (SECCOMP_RET_ERRNO OR (ENOSYS AND SECCOMP_RET_DATA)),
      BPF_JUMP (BPF_JMP OR BPF_JEQ OR BPF_K) (NR_request_key tg) 0 1,
      BPF_STMT (BPF_RET OR BPF_K) (SECCOMP_RET_ERRNO OR (ENOSYS AND SECCOMP_RET_DATA)),

      BPF_JUMP (BPF_JMP OR BPF_JA) (if is_systemd \<noteq> 0 \<and> major < 5 then 0 else 5) 0 0,

      BPF_JUMP (BPF_JMP OR BPF_JEQ OR BPF_K) (NR_unshare tg) 1 0,
      BPF_JUMP (BPF_JMP OR BPF_JEQ OR BPF_K) (NR_clone tg) 0 3,

      BPF_STMT (BPF_LD OR BPF_W OR BPF_ABS) 16,
      BPF_JUMP (BPF_JMP OR BPF_JSET OR BPF_K) ns_mask 0 1,
      BPF_STMT (BPF_RET OR BPF_K) (SECCOMP_RET_ERRNO OR (EPERM AND SECCOMP_RET_DATA)),

      BPF_STMT (BPF_RET OR BPF_K) SECCOMP_RET_ALLOW]"

text \<open>
  \<open>android_seccomp_setup(is_systemd)\<close>: the return value and the filter installed, if
  any. \<open>get_kernel_version\<close> is declared in droidspace.h and defined outside the sources
  at hand; its effect on the two variables is taken as given: \<open>Some (ma, mi)\<close> when it
  stores a version through its pointers, \<open>None\<close> when it returns without storing (its
  return value is not looked at). \<open>prctl_ok\<close>: whether \<open>prctl\<close> accepts the filter.
\<close>

definition android_seccomp_setup ::
    "target \<Rightarrow> int \<Rightarrow> (int \<times> int) option \<Rightarrow> bool \<Rightarrow> int \<times> sock_filter list option" where
  "android_seccomp_setup tg is_systemd kver prctl_ok =
     (let major = 0; minor = 0;
          (major, minor) = (case kver of Some v \<Rightarrow> v | None \<Rightarrow> (major, minor));
          filter = seccomp_filter tg is_systemd major
      in if \<not> prctl_ok then (- 1, None) else (0, Some filter))"

text \<open>The verdict of an installed filter on a system call; the accumulator starts at 0.\<close>

definition seccomp_verdict :: "sock_filter list option \<Rightarrow> seccomp_data \<Rightarrow> 32 word option" where
  "seccomp_verdict prog d = (case prog of None \<Rightarrow> None | Some p \<Rightarrow> bpf_run p d 0)"

text \<open>
  The classification in the spec's words, first match winning, for a build on one of
  the four architectures whose \<open>AUDIT_ARCH\<close> value is \<open>a\<close>.
\<close>

definition seccomp_classify ::
    "target \<Rightarrow> 32 word \<Rightarrow> int \<Rightarrow> int \<Rightarrow> seccomp_data \<Rightarrow> 32 word" where
  "seccomp_classify tg a is_systemd major d =
     (if arch d \<noteq> a then SECCOMP_RET_ALLOW
      else if nr d = NR_reboot tg then SECCOMP_RET_TRAP
      else if nr d = NR_keyctl tg \<or> nr d = NR_add_key tg \<or> nr d = NR_request_key tg
           then SECCOMP_RET_ERRNO OR ENOSYS
      else if (is_systemd \<noteq> 0 \<and> major < 5)
              \<and> (nr d = NR_unshare tg \<or> nr d = NR_clone tg)
              \<and> args d 0 AND 0x7E020000 \<noteq> 0
           then SECCOMP_RET_ERRNO OR EPERM
      else SECCOMP_RET_ALLOW)"

text \<open>The system call numbers of an aarch64 build, and \<open>unshare(CLONE_NEWNS)\<close> there.\<close>

definition aarch64_target :: target where
  "aarch64_target =
     \<lparr>t_arch = Aarch64, NR_reboot = 142, NR_keyctl = 219, NR_add_key = 217,
      NR_request_key = 218, NR_unshare = 97, NR_clone = 220\<rparr>"

definition CLONE_NEWNS :: "64 word" where
  "CLONE_NEWNS = 0x00020000"

definition syscall_on_aarch64 :: "32 word \<Rightarrow> 64 word \<Rightarrow> seccomp_data" where
  "syscall_on_aarch64 n arg0 =
     \<lparr>nr = n, arch = 0xC00000B7, instruction_pointer = 0,
      args = (\<lambda>i. if i = 0 then arg0 else 0)\<rparr>"

section \<open>mount.c\<close>

text \<open>
  The file tree is a map from path to node; the mounts made are kept in a list. The
  outcome of a system call that depends on more than the tree (privilege, the kernel's
  configuration) is given by a \<open>kernel\<close>: the error, if any, that \<open>mknod\<close> gets on a path
  and \<open>mount\<close> on a target, and whether \<open>write_file\<close> can write a path. A \<open>const char *\<close>
  argument is the bytes before its terminator.
\<close>

datatype node = Chr nat nat | Reg string | Dir | Lnk string | Special

datatype err = Err_EEXIST | Err_EBUSY | Err_EPERM | Err_other

datatype mount_rec =
  Mount "string option" string "string option" "64 word" "string option"

record fs =
  files :: "string \<Rightarrow> node option"
  mounts :: "mount_rec list"

record kernel =
  mknod_err :: "string \<Rightarrow> err option"
  mount_err :: "string \<Rightarrow> err option"
  write_ok :: "string \<Rightarrow> bool"

definition PATH_MAX :: nat where "PATH_MAX = 4096"

definition S_IFMT :: "32 word" where "S_IFMT = 0xF000"
definition S_IFCHR :: "32 word" where "S_IFCHR = 0x2000"
definition S_IFDIR :: "32 word" where "S_IFDIR = 0x4000"
definition S_IFREG :: "32 word" where "S_IFREG = 0x8000"

definition S_ISREG :: "32 word \<Rightarrow> bool" where
  "S_ISREG m = (m AND S_IFMT = S_IFREG)"

definition S_ISCHR :: "32 word \<Rightarrow> bool" where
  "S_ISCHR m = (m AND S_IFMT = S_IFCHR)"

definition MS_NOSUID :: "64 word" where "MS_NOSUID = 2"
definition MS_NODEV :: "64 word" where "MS_NODEV = 4"
definition MS_NOEXEC :: "64 word" where "MS_NOEXEC = 8"
definition MS_BIND :: "64 word" where "MS_BIND = 4096"
definition MS_REC :: "64 word" where "MS_REC = 16384"

text \<open>
  \<open>mknod(path, mode, dev)\<close>: the error or the tree with the new node. It fails with
  EEXIST on a path that exists.
\<close>

definition node_of :: "32 word \<Rightarrow> nat \<times> nat \<Rightarrow> node" where
  "node_of m dev =
     (if S_ISCHR m then Chr (fst dev) (snd dev)
      else if S_ISREG m then Reg []
      else Special)"

definition mknod :: "kernel \<Rightarrow> string \<Rightarrow> 32 word \<Rightarrow> nat \<times> nat \<Rightarrow> fs \<Rightarrow> err option \<times> fs" where
  "mknod K path m dev st =
     (case mknod_err K path of
        Some e \<Rightarrow> (Some e, st)
      | None \<Rightarrow>
          (if files st path \<noteq> None then (Some Err_EEXIST, st)
           else (None, st\<lparr>files := (files st)(path \<mapsto> node_of m dev)\<rparr>)))"

text \<open>
  Modelled from the spec: \<open>write_file\<close> is declared in droidspace.h and defined outside
  the sources at hand. The spec has it "write" a content to a path and "create"
  placeholder regular files: where the path can be written, it is a regular file with
  that content afterwards.
\<close>

definition write_file :: "kernel \<Rightarrow> string \<Rightarrow> string \<Rightarrow> fs \<Rightarrow> fs" where
  "write_file K path content st =
     (if write_ok K path then st\<lparr>files := (files st)(path \<mapsto> Reg content)\<rparr> else st)"

text \<open>
  \<open>mount(2)\<close> as far as the tree shows it: a new tmpfs is empty, so no path below its
  target exists any more; for every other mount only the record is kept.
\<close>

definition below :: "string \<Rightarrow> string \<Rightarrow> bool" where
  "below dir p = (take (Suc (length dir)) p = dir @ ''/'')"

definition mount_apply :: "mount_rec \<Rightarrow> fs \<Rightarrow> fs" where
  "mount_apply m st =
     (case m of Mount src tgt fstype flags mdata \<Rightarrow>
        st\<lparr>files := (if fstype = Some ''tmpfs''
                       then (\<lambda>p. if below tgt p then None else files st p)
                       else files st),
            mounts := mounts st @ [m]\<rparr>)"

text \<open>\<open>domount(src, tgt, fstype, flags, data)\<close>.\<close>

definition domount ::
    "kernel \<Rightarrow> string option \<Rightarrow> string \<Rightarrow> string option \<Rightarrow> 64 word \<Rightarrow> string option
       \<Rightarrow> fs \<Rightarrow> int \<times> fs" where
  "domount K src tgt fstype flags mdata st =
     (case mount_err K tgt of
        Some e \<Rightarrow> (if e \<noteq> Err_EBUSY then (- 1, st) else (0, st))
      | None \<Rightarrow> (0, mount_apply (Mount src tgt fstype flags mdata) st))"

text \<open>
  \<open>bind_mount(src, tgt)\<close>. \<open>stat\<close> succeeds on a path that exists; \<open>mkdir\<close> makes the
  directory.
\<close>

definition bind_mount :: "kernel \<Rightarrow> string \<Rightarrow> string \<Rightarrow> fs \<Rightarrow> int \<times> fs" where
  "bind_mount K src tgt st =
     (case files st src of
        None \<Rightarrow> (- 1, st)
      | Some st_src \<Rightarrow>
          (let st = (if files st tgt = None
                     then (if st_src = Dir
                           then st\<lparr>files := (files st)(tgt \<mapsto> Dir)\<rparr>
                           else write_file K tgt [] st)
                     else st)
           in domount K (Some src) tgt None (MS_BIND OR MS_REC) None st))"

text \<open>
  The table \<open>devices[]\<close> of \<open>create_devices\<close>: name, mode, and device number as
  \<open>(major, minor)\<close>, with \<open>(0, 0)\<close> for the device number 0.
\<close>

definition devices :: "(string \<times> 32 word \<times> (nat \<times> nat)) list" where
  "devices =
     [(''null'', S_IFCHR OR 0x1B6, (1, 3)),
      (''zero'', S_IFCHR OR 0x1B6, (1, 5)),
      (''full'', S_IFCHR OR 0x1B6, (1, 7)),
      (''random'', S_IFCHR OR 0x1B6, (1, 8)),
      (''urandom'', S_IFCHR OR 0x1B6, (1, 9)),
      (''tty'', S_IFCHR OR 0x1B6, (5, 0)),
      (''console'', S_IFCHR OR 0x180, (5, 1)),
      (''ptmx'', S_IFCHR OR 0x1B6, (5, 2)),
      (''tty1'', S_IFREG OR 0, (0, 0)),
      (''tty2'', S_IFREG OR 0, (0, 0)),
      (''tty3'', S_IFREG OR 0, (0, 0)),
      (''tty4'', S_IFREG OR 0, (0, 0))]"

definition dev_path :: "string \<Rightarrow> string \<Rightarrow> string" where
  "dev_path rootfs name = snprintf PATH_MAX (rootfs @ ''/dev/'' @ name)"

text \<open>The body of the loop of \<open>create_devices\<close> for one entry of the table.\<close>

definition create_device :: "kernel \<Rightarrow> string \<Rightarrow> string \<times> 32 word \<times> (nat \<times> nat) \<Rightarrow> fs \<Rightarrow> fs" where
  "create_device K rootfs d st =
     (case d of (name, m, dev) \<Rightarrow>
        (let path = dev_path rootfs name
         in case mknod K path m dev st of
              (None, st') \<Rightarrow> st'
            | (Some e, st') \<Rightarrow>
                (if e \<noteq> Err_EEXIST
                 then (if S_ISREG m then write_file K path [] st'
                       else (let host_path = snprintf PATH_MAX (''/dev/'' @ name)
                             in snd (bind_mount K host_path path st')))
                 else st')))"

text \<open>\<open>symlink(target, linkpath)\<close>: the link is made where nothing exists.\<close>

definition symlink :: "string \<Rightarrow> string \<Rightarrow> fs \<Rightarrow> fs" where
  "symlink target linkpath st =
     (if files st linkpath = None
      then st\<lparr>files := (files st)(linkpath \<mapsto> Lnk target)\<rparr>
      else st)"

text \<open>\<open>create_devices(rootfs)\<close>: the return value and the tree it leaves.\<close>

definition create_devices :: "kernel \<Rightarrow> string \<Rightarrow> fs \<Rightarrow> int \<times> fs" where
  "create_devices K rootfs st =
     (let st = foldl (\<lambda>s d. create_device K rootfs d s) st devices;
          st = symlink ''/proc/self/fd'' (snprintf PATH_MAX (rootfs @ ''/dev/fd'')) st;
          st = symlink ''/proc/self/fd/0'' (snprintf PATH_MAX (rootfs @ ''/dev/stdin'')) st;
          st = symlink ''/proc/self/fd/1'' (snprintf PATH_MAX (rootfs @ ''/dev/stdout'')) st;
          st = symlink ''/proc/self/fd/2'' (snprintf PATH_MAX (rootfs @ ''/dev/stderr'')) st
      in (0, st))"

text \<open>\<open>setup_dev(rootfs, hw_access)\<close>.\<close>

definition setup_dev :: "kernel \<Rightarrow> string \<Rightarrow> int \<Rightarrow> fs \<Rightarrow> int \<times> fs" where
  "setup_dev K rootfs hw st =
     (let devp = snprintf PATH_MAX (rootfs @ ''/dev'')
      in if hw \<noteq> 0
         then domount K (Some ''devtmpfs'') devp (Some ''devtmpfs'')
                (MS_NOSUID OR MS_NOEXEC) None st
         else (case domount K (Some ''none'') devp (Some ''tmpfs'')
                      (MS_NOSUID OR MS_NOEXEC) (Some ''size=4M,mode=755'') st of
                 (r, st') \<Rightarrow> (if r < 0 then (- 1, st') else create_devices K rootfs st')))"

text \<open>
  The regular files a run makes: the paths that hold a regular file afterwards and
  held nothing before. The placeholders the spec asks for with a given \<open>tty_count\<close>
  are \<open>tty1\<close> to \<open>tty{tty_count}\<close>.
\<close>

definition is_reg :: "node option \<Rightarrow> bool" where
  "is_reg n = (case n of Some (Reg c) \<Rightarrow> True | _ \<Rightarrow> False)"

definition made_regular :: "fs \<Rightarrow> fs \<Rightarrow> string \<Rightarrow> bool" where
  "made_regular st st' p = (files st p = None \<and> is_reg (files st' p))"

definition digit_char :: "nat \<Rightarrow> char" where
  "digit_char d = ''0123456789'' ! (d mod 10)"

definition tty_name :: "nat \<Rightarrow> string" where
  "tty_name i = ''tty'' @ [digit_char i]"

text \<open>A kernel that lets every call through, and an empty tree.\<close>

definition root_kernel :: kernel where
  "root_kernel = \<lparr>mknod_err = (\<lambda>p. None), mount_err = (\<lambda>p. None), write_ok = (\<lambda>p. True)\<rparr>"

definition empty_fs :: fs where
  "empty_fs = \<lparr>files = (\<lambda>p. None), mounts = []\<rparr>"

section \<open>hardware.c\<close>

type_synonym gid_t = "32 word"

text \<open>The table \<open>gpu_devices[]\<close> of \<open>scan_host_gpu_gids\<close>.\<close>

definition gpu_devices :: "string list" where
  "gpu_devices =
     [''/dev/dri/renderD128'', ''/dev/dri/renderD129'', ''/dev/dri/renderD130'',
      ''/dev/dri/card0'', ''/dev/dri/card1'', ''/dev/dri/card2'',
      ''/dev/nvidia0'', ''/dev/nvidia1'', ''/dev/nvidia2'', ''/dev/nvidiactl'',
      ''/dev/nvidia-uvm'', ''/dev/nvidia-uvm-tools'', ''/dev/nvidia-modeset'',
      ''/dev/nvidia-caps/nvidia-cap1'', ''/dev/nvidia-caps/nvidia-cap2'',
      ''/dev/mali0'', ''/dev/mali'', ''/dev/mali1'',
      ''/dev/kgsl-3d0'', ''/dev/kgsl'', ''/dev/genlock'',
      ''/dev/kfd'',
      ''/dev/pvr_sync'',
      ''/dev/nvhost-ctrl'', ''/dev/nvhost-gpu'', ''/dev/nvmap'',
      ''/dev/dma_heap/system'', ''/dev/dma_heap/linux,cma'',
      ''/dev/dma_heap/reserved'', ''/dev/dma_heap/qcom,system'',
      ''/dev/sw_sync'']"

text \<open>
  The loop of \<open>scan_host_gpu_gids\<close> over the rest of the table; \<open>gids\<close> is the array
  filled so far (\<open>count\<close> is its length). \<open>stat_gid path\<close> is the group of the file as
  \<open>stat\<close> reports it, \<open>None\<close> when \<open>stat\<close> fails.
\<close>

fun scan_gids :: "(string \<Rightarrow> gid_t option) \<Rightarrow> int \<Rightarrow> string list \<Rightarrow> gid_t list \<Rightarrow> gid_t list" where
  "scan_gids stat_gid max_gids [] gids = gids"
| "scan_gids stat_gid max_gids (d # ds) gids =
     (case stat_gid d of
        None \<Rightarrow> scan_gids stat_gid max_gids ds gids
      | Some gid \<Rightarrow>
          (if gid = 0 then scan_gids stat_gid max_gids ds gids
           else (let duplicate = (gid \<in> set gids)
                 in if \<not> duplicate \<and> int (length gids) < max_gids
                    then scan_gids stat_gid max_gids ds (gids @ [gid])
                    else scan_gids stat_gid max_gids ds gids)))"

definition scan_host_gpu_gids :: "(string \<Rightarrow> gid_t option) \<Rightarrow> int \<Rightarrow> gid_t list" where
  "scan_host_gpu_gids stat_gid max_gids = scan_gids stat_gid max_gids gpu_devices []"

text \<open>
  \<open>strstr(hay, needle)\<close>: the offset of the first occurrence, \<open>None\<close> for the null
  pointer. \<open>char_at s i\<close> is \<open>s[i]\<close> in a C string: the terminator at its end.
\<close>

fun strstr :: "string \<Rightarrow> string \<Rightarrow> nat option" where
  "strstr [] needle = (if needle = [] then Some 0 else None)"
| "strstr (c # cs) needle =
     (if take (length needle) (c # cs) = needle then Some 0
      else map_option Suc (strstr cs needle))"

definition char_at :: "string \<Rightarrow> nat \<Rightarrow> char" where
  "char_at s i = (if i < length s then s ! i else NUL)"

text \<open>
  The loop of \<open>has_user\<close> with the pointer \<open>p\<close> as an offset into \<open>users\<close>. The pointer
  moves past the terminator only for an empty \<open>username\<close>, where C gives no meaning to
  the next \<open>strstr\<close>; the first test stops there.
\<close>

function has_user_from :: "string \<Rightarrow> string \<Rightarrow> nat \<Rightarrow> bool" where
  "has_user_from users username p =
     (if length users < p then False
      else (case strstr (drop p users) username of
              None \<Rightarrow> False
            | Some off \<Rightarrow>
                (let q = p + off;
                     at_start = (q = 0);
                     prev_comma = (q > 0 \<and> char_at users (q - 1) = CHR '','');
                     next_comma = (char_at users (q + length username) = CHR '',''
                                   \<or> char_at users (q + length username) = NUL)
                 in if (at_start \<or> prev_comma) \<and> next_comma then True
                    else has_user_from users username (q + 1))))"
  by pat_completeness auto
termination
  by (relation "measure (\<lambda>(users, username, p). Suc (length users) - p)") auto

declare has_user_from.simps [simp del]

text \<open>\<open>has_user(users, username)\<close>; \<open>None\<close> is the null pointer.\<close>

definition has_user :: "string option \<Rightarrow> string option \<Rightarrow> bool" where
  "has_user users username =
     (case users of
        None \<Rightarrow> False
      | Some u \<Rightarrow> (case username of None \<Rightarrow> False | Some n \<Rightarrow> has_user_from u n 0))"

text \<open>
  \<open>atoi(s)\<close> is \<open>(int)strtol(s, NULL, 10)\<close>, as glibc and bionic define it. \<open>strtol\<close>
  skips white space, takes an optional sign and then the digits up to the first other
  byte; for a number outside the range of \<open>long\<close> it returns \<open>LONG_MAX\<close> or \<open>LONG_MIN\<close>.
  \<open>long\<close> has 64 bits here, as on the aarch64 and x86_64 builds, and the conversion to
  \<open>int\<close> keeps the low 32 bits. C defines \<open>atoi\<close> only where the number fits an \<open>int\<close>,
  and up to \<open>INT_MAX\<close> every C library reads a plain decimal number the same way. The
  cast \<open>(gid_t)gid_val\<close> is \<open>word_of_int\<close>.
\<close>

definition isspace :: "char \<Rightarrow> bool" where
  "isspace c = (c \<in> set [CHR '' '', CHR 0x09, CHR 0x0A, CHR 0x0B, CHR 0x0C, CHR 0x0D])"

definition isdigit :: "char \<Rightarrow> bool" where
  "isdigit c = (c \<in> set ''0123456789'')"

definition digit_val :: "char \<Rightarrow> int" where
  "digit_val c = int (of_char c) - 48"

definition LONG_MAX :: int where
  "LONG_MAX = 2 ^ 63 - 1"

definition LONG_MIN :: int where
  "LONG_MIN = - (2 ^ 63)"


fun strtol_digits :: "int \<Rightarrow> string \<Rightarrow> int" where
  "strtol_digits acc [] = acc"
| "strtol_digits acc (c # cs) =
     (if isdigit c then strtol_digits (acc * 10 + digit_val c) cs else acc)"

definition strtol :: "string \<Rightarrow> int" where
  "strtol s =
     (let v = (case dropWhile isspace s of
                 [] \<Rightarrow> 0
               | c # cs \<Rightarrow>
                   (if c = CHR ''-'' then - strtol_digits 0 cs
                    else if c = CHR ''+'' then strtol_digits 0 cs
                    else strtol_digits 0 (c # cs)))
      in if v > LONG_MAX then LONG_MAX else if v < LONG_MIN then LONG_MIN else v)"

definition atoi :: "string \<Rightarrow> int" where
  "atoi s = sint (word_of_int (strtol s) :: 32 word)"

text \<open>\<open>%d\<close> of \<open>printf\<close>.\<close>

fun show_nat :: "nat \<Rightarrow> string" where
  "show_nat n =
     (if n < 10 then [digit_char n] else show_nat (n div 10) @ [digit_char (n mod 10)])"

declare show_nat.simps [simp del]

definition show_int :: "int \<Rightarrow> string" where
  "show_int i = (if i < 0 then ''-'' @ show_nat (nat (- i)) else show_nat (nat i))"

text \<open>
  The scan for the colons in \<open>line_copy\<close>: \<open>pos\<close> is the offset of \<open>p\<close>, and the result
  is the pair \<open>(gid_str, users_ptr)\<close> of offsets, \<open>None\<close> for a pointer still null when
  the scan ends.
\<close>

fun scan_colons :: "string \<Rightarrow> nat \<Rightarrow> nat \<Rightarrow> nat option \<Rightarrow> nat option \<times> nat option" where
  "scan_colons [] pos colons gid_str = (gid_str, None)"
| "scan_colons (c # cs) pos colons gid_str =
     (if c = CHR '':''
      then (if colons + 1 = 2 then scan_colons cs (pos + 1) (colons + 1) (Some (pos + 1))
            else if colons + 1 = 3 then (gid_str, Some (pos + 1))
            else scan_colons cs (pos + 1) (colons + 1) gid_str)
      else scan_colons cs (pos + 1) colons gid_str)"

text \<open>The search for \<open>gpu_idx\<close>: the first index of the GID in \<open>gpu_gids\<close>.\<close>

fun gid_index :: "gid_t list \<Rightarrow> gid_t \<Rightarrow> nat option" where
  "gid_index [] g = None"
| "gid_index (x # xs) g = (if x = g then Some 0 else map_option Suc (gid_index xs g))"

text \<open>
  The body of the \<open>while (fgets(line, sizeof(line), fin))\<close> loop of \<open>setup_gpu_groups\<close> on
  one buffer: what it writes to the temporary file, the index it marks in
  \<open>found_gids\<close> (if any), and whether it counts the line as modified.
\<close>

definition group_line :: "gid_t list \<Rightarrow> string \<Rightarrow> string \<times> nat option \<times> bool" where
  "group_line gpu_gids buf =
     (let line = c_str buf;
          line_copy = safe_strncpy line 2048;
          line_copy = (case strrchr line_copy NL of
                         Some nl \<Rightarrow> take nl line_copy
                       | None \<Rightarrow> line_copy)
      in case scan_colons line_copy 0 0 None of
           (Some g, Some u) \<Rightarrow>
             (let gid_str = take (u - 1 - g) (drop g line_copy);
                  users = drop u line_copy;
                  gid_val = atoi gid_str
              in case gid_index gpu_gids (word_of_int gid_val) of
                   None \<Rightarrow> (line, None, False)
                 | Some gpu_idx \<Rightarrow>
                     (if \<not> has_user (Some users) (Some ''root'')
                      then ((if length users > 0
                             then take (u - 1) line_copy @ '':'' @ users @ '',root'' @ [NL]
                             else take (u - 1) line_copy @ '':root'' @ [NL]),
                            Some gpu_idx, True)
                      else (line, Some gpu_idx, False)))
         | _ \<Rightarrow> (line, None, False))"

text \<open>
  The whole loop, from the state \<open>(bytes written, found_gids, modified_count)\<close>.
\<close>

definition group_step ::
    "gid_t list \<Rightarrow> string \<times> bool list \<times> nat \<Rightarrow> string \<Rightarrow> string \<times> bool list \<times> nat" where
  "group_step gpu_gids st buf =
     (case st of (out, found_gids, modified_count) \<Rightarrow>
        (case group_line gpu_gids buf of (piece, idx, modified) \<Rightarrow>
           (out @ piece,
            (case idx of Some i \<Rightarrow> found_gids[i := True] | None \<Rightarrow> found_gids),
            (if modified then modified_count + 1 else modified_count))))"

text \<open>The record for a GID that no line has.\<close>

definition gpu_record :: "gid_t \<Rightarrow> string" where
  "gpu_record g =
     ''gpu_'' @ show_int (sint g) @ '':x:'' @ show_int (sint g) @ '':root'' @ [NL]"

text \<open>
  The loop \<open>for (i = 0; i < gid_count; i++)\<close> that appends the missing groups, over
  the rest of \<open>gpu_gids\<close> and \<open>found_gids\<close> from index \<open>i\<close> on; the two arrays have the
  same length.
\<close>

fun append_missing ::
    "gid_t list \<Rightarrow> bool list \<Rightarrow> string \<times> nat \<Rightarrow> string \<times> nat" where
  "append_missing (g # gs) (f # fs) (out, modified_count) =
     (if \<not> f
      then append_missing gs fs (out @ gpu_record g, modified_count + 1)
      else append_missing gs fs (out, modified_count))"
| "append_missing gs fs st = st"

text \<open>
  What \<open>setup_gpu_groups\<close> meets: the bytes of /etc/group (\<open>None\<close> when \<open>access\<close> fails)
  and whether the two \<open>fopen\<close>, the \<open>calloc\<close> and the \<open>rename\<close> succeed. What it leaves:
  the return value, the bytes it wrote to /etc/group.tmp (\<open>None\<close> when it did not open
  the file), whether it called \<open>rename\<close>, and the bytes of /etc/group afterwards.
\<close>

record group_env =
  etc_group :: "string option"
  fin_ok :: bool
  fout_ok :: bool
  calloc_ok :: bool
  rename_ok :: bool

record group_result =
  ret :: int
  tmp_written :: "string option"
  rename_called :: bool
  group_after :: "string option"

definition setup_gpu_groups :: "group_env \<Rightarrow> gid_t list \<Rightarrow> group_result" where
  "setup_gpu_groups env gpu_gids =
     (let unchanged = \<lparr>ret = 0, tmp_written = None, rename_called = False,
                        group_after = etc_group env\<rparr>
      in if length gpu_gids \<le> 0 then unchanged
         else (case etc_group env of
                 None \<Rightarrow> unchanged
               | Some bytes \<Rightarrow>
                   (if \<not> fin_ok env then unchanged\<lparr>ret := - 1\<rparr>
                    else if \<not> fout_ok env then unchanged\<lparr>ret := - 1\<rparr>
                    else if \<not> calloc_ok env
                         then unchanged\<lparr>ret := - 1, tmp_written := Some []\<rparr>
                    else (let found_gids = replicate (length gpu_gids) False;
                              (out, found_gids, modified_count) =
                                 foldl (group_step gpu_gids) ([], found_gids, 0)
                                   (fgets_all 2048 bytes);
                              (out, modified_count) =
                                 append_missing gpu_gids found_gids (out, modified_count)
                          in if modified_count > 0
                             then (if \<not> rename_ok env
                                   then \<lparr>ret = - 1, tmp_written = Some out,
                                         rename_called = True, group_after = etc_group env\<rparr>
                                   else \<lparr>ret = 0, tmp_written = Some out,
                                         rename_called = True, group_after = Some out\<rparr>)
                             else \<lparr>ret = 0, tmp_written = Some out, rename_called = False,
                                   group_after = etc_group env\<rparr>))))"

text \<open>A host on which every call of \<open>setup_gpu_groups\<close> succeeds, with a group file.\<close>

definition group_file :: "string \<Rightarrow> group_env" where
  "group_file bytes =
     \<lparr>etc_group = Some bytes, fin_ok = True, fout_ok = True, calloc_ok = True,
      rename_ok = True\<rparr>"

text \<open>
  The parts of a run of \<open>setup_gpu_groups\<close> on a group file: what the loop writes for
  each buffer, \<open>found_gids\<close> when the loop ends, and the GIDs whose record is appended.
\<close>

definition group_pieces :: "gid_t list \<Rightarrow> string \<Rightarrow> string list" where
  "group_pieces gpu_gids bytes = map (\<lambda>l. fst (group_line gpu_gids l)) (fgets_all 2048 bytes)"

definition group_found :: "gid_t list \<Rightarrow> string \<Rightarrow> bool list" where
  "group_found gpu_gids bytes =
     fst (snd (foldl (group_step gpu_gids) ([], replicate (length gpu_gids) False, 0)
                 (fgets_all 2048 bytes)))"

definition group_missing :: "gid_t list \<Rightarrow> string \<Rightarrow> gid_t list" where
  "group_missing gpu_gids bytes =
     map fst (filter (\<lambda>(g, f). \<not> f) (zip gpu_gids (group_found gpu_gids bytes)))"


definition line_body :: "string \<Rightarrow> string" where
  "line_body l = (case strrchr l NL of Some nl \<Rightarrow> take nl l | None \<Rightarrow> l)"

fun join_on :: "char \<Rightarrow> string list \<Rightarrow> string" where
  "join_on c [] = []"
| "join_on c [w] = w"
| "join_on c (w # ws) = w @ [c] @ join_on c ws"

definition record_fields :: "string \<Rightarrow> (string \<times> string \<times> string) option" where
  "record_fields body =
     (case split_on CHR '':'' body of
        name # pw # gidf # u # us \<Rightarrow>
          Some (name @ '':'' @ pw @ '':'' @ gidf, gidf, join_on CHR '':'' (u # us))
      | _ \<Rightarrow> None)"



definition is_member :: "string \<Rightarrow> string \<Rightarrow> bool" where
  "is_member user users = (user \<in> set (split_on CHR '','' users))"

definition with_root :: "string \<Rightarrow> string \<Rightarrow> string" where
  "with_root pre users =
     pre @ '':'' @ users @ (if users = [] then ''root'' else '',root'') @ [NL]"

text \<open>
  Two other ways to say that \<open>w\<close> is an item of the list \<open>u\<close> with separator \<open>c\<close>:
  \<open>u\<close> is \<open>w\<close> between a part that is empty or ends with \<open>c\<close> and a part that is empty
  or starts with \<open>c\<close>; and, by offsets as \<open>has_user\<close> tests it, \<open>w\<close> stands at offset
  \<open>q\<close> of \<open>u\<close> between such neighbours.
\<close>

definition field_of :: "char \<Rightarrow> string \<Rightarrow> string \<Rightarrow> bool" where
  "field_of c w u =
     (\<exists>pre post. u = pre @ w @ post \<and> (pre = [] \<or> last pre = c)
                  \<and> (post = [] \<or> hd post = c))"

definition whole_word_at :: "string \<Rightarrow> string \<Rightarrow> nat \<Rightarrow> bool" where
  "whole_word_at u n q =
     (take (length n) (drop q u) = n
      \<and> (q = 0 \<or> u ! (q - 1) = CHR '','')
      \<and> (q + length n = length u \<or> u ! (q + length n) = CHR '',''))"






text \<open>The placeholders the spec's sentence names for a given \<open>tty_count\<close>.\<close>

definition spec_placeholders :: "int \<Rightarrow> string list" where
  "spec_placeholders n = map tty_name [1 ..< Suc (nat n)]"

definition cfg_six_ttys :: ds_config where
  "cfg_six_ttys =
     \<lparr>container_name = ''box'', hostname = ''box'', enable_ipv6 = 0,
      hw_access = 0, termux_x11 = 0, tty_count = 6\<rparr>"

section \<open>Proofs: environment.c\<close>

lemma safe_strncpy_no_NUL: "NUL \<notin> set (safe_strncpy s n)"
proof -
  have "NUL \<notin> set (c_str s)"
    unfolding c_str_def by (induction s) auto
  then show ?thesis
    unfolding safe_strncpy_def by (meson in_set_takeD)
qed

lemma c_str_id: "NUL \<notin> set s \<Longrightarrow> c_str s = s"
  unfolding c_str_def by (induction s) auto

lemma safe_strncpy_idem: "safe_strncpy (safe_strncpy s n) n = safe_strncpy s n"
proof -
  have "c_str (safe_strncpy s n) = safe_strncpy s n"
    by (rule c_str_id) (rule safe_strncpy_no_NUL)
  then show ?thesis
    by (simp add: safe_strncpy_def)
qed

lemma setup_container_env_eq:
  "setup_container_env env =
     [(''PATH'', ''/usr/local/sbin:/usr/local/bin:/usr/sbin:/usr/bin:/sbin:/bin''),
      (''TERM'', (case getenv env ''TERM'' of
                    None \<Rightarrow> ''xterm-256color''
                  | Some t \<Rightarrow> safe_strncpy t 64)),
      (''HOME'', ''/root''),
      (''container'', ''droidspaces'')]"
  by (simp add: setup_container_env_def set_container_defaults_def setenv_def
        clearenv_def getenv_def split: option.splits)

text \<open>
  C8. For every starting environment, the scrub-and-default mode applied a second time
  leaves the environment of the first application, and that environment is exactly
  PATH (the fixed search path), TERM (the value captured in the 64-byte buffer, or
  xterm-256color when TERM was unset), HOME=/root and container=droidspaces. A TERM
  of at most 63 bytes without a terminator inside is captured whole.
\<close>

theorem setup_container_env_idempotent:
  "setup_container_env (setup_container_env env) = setup_container_env env \<and>
   setup_container_env env =
     [(''PATH'', ''/usr/local/sbin:/usr/local/bin:/usr/sbin:/usr/bin:/sbin:/bin''),
      (''TERM'', (case getenv env ''TERM'' of
                    None \<Rightarrow> ''xterm-256color''
                  | Some t \<Rightarrow> safe_strncpy t 64)),
      (''HOME'', ''/root''),
      (''container'', ''droidspaces'')] \<and>
   (\<forall>t. getenv env ''TERM'' = Some t \<and> length t < 64 \<and> NUL \<notin> set t
        \<longrightarrow> getenv (setup_container_env env) ''TERM'' = Some t)"
proof (intro conjI allI impI)
  let ?e = "setup_container_env env"
  have term1: "getenv ?e ''TERM'' =
      Some (case getenv env ''TERM'' of None \<Rightarrow> ''xterm-256color''
            | Some t \<Rightarrow> safe_strncpy t 64)"
    by (simp add: setup_container_env_eq getenv_def)
  have "safe_strncpy ''xterm-256color'' 64 = ''xterm-256color''"
    by (simp add: safe_strncpy_def c_str_def NUL_def)
  then have "(case getenv ?e ''TERM'' of None \<Rightarrow> ''xterm-256color''
              | Some t \<Rightarrow> safe_strncpy t 64) =
             (case getenv env ''TERM'' of None \<Rightarrow> ''xterm-256color''
              | Some t \<Rightarrow> safe_strncpy t 64)"
    by (simp add: term1 safe_strncpy_idem split: option.splits)
  then have "setup_container_env ?e =
     [(''PATH'', ''/usr/local/sbin:/usr/local/bin:/usr/sbin:/usr/bin:/sbin:/bin''),
      (''TERM'', (case getenv env ''TERM'' of
                    None \<Rightarrow> ''xterm-256color''
                  | Some t \<Rightarrow> safe_strncpy t 64)),
      (''HOME'', ''/root''),
      (''container'', ''droidspaces'')]"
    by (simp only: setup_container_env_eq [of ?e])
  also have "\<dots> = ?e"
    by (rule setup_container_env_eq [symmetric])
  finally show "setup_container_env ?e = ?e" .
next
  show "setup_container_env env =
     [(''PATH'', ''/usr/local/sbin:/usr/local/bin:/usr/sbin:/usr/bin:/sbin:/bin''),
      (''TERM'', (case getenv env ''TERM'' of
                    None \<Rightarrow> ''xterm-256color''
                  | Some t \<Rightarrow> safe_strncpy t 64)),
      (''HOME'', ''/root''),
      (''container'', ''droidspaces'')]"
    by (rule setup_container_env_eq)
next
  fix t
  assume a: "getenv env ''TERM'' = Some t \<and> length t < 64 \<and> NUL \<notin> set t"
  then have "safe_strncpy t 64 = t"
    by (simp add: safe_strncpy_def c_str_id)
  with a show "getenv (setup_container_env env) ''TERM'' = Some t"
    by (simp add: setup_container_env_eq getenv_def)
qed

theorem setup_container_env_idempotent_witness:
  "setup_container_env (setup_container_env [(''TERM'', ''vt100''), (''LANG'', ''C'')])
     = setup_container_env [(''TERM'', ''vt100''), (''LANG'', ''C'')] \<and>
   getenv (setup_container_env [(''TERM'', ''vt100''), (''LANG'', ''C'')]) ''TERM''
     = Some ''vt100'' \<and>
   getenv (setup_container_env [(''TERM'', ''vt100''), (''LANG'', ''C'')]) ''LANG'' = None"
proof -
  let ?env = "[(''TERM'', ''vt100''), (''LANG'', ''C'')]"
  have pre: "getenv ?env ''TERM'' = Some ''vt100'' \<and> length ''vt100'' < 64
             \<and> NUL \<notin> set ''vt100''"
    by (simp add: getenv_def NUL_def)
  from setup_container_env_idempotent [of ?env]
  have idem: "setup_container_env (setup_container_env ?env) = setup_container_env ?env"
    and shape: "setup_container_env ?env =
     [(''PATH'', ''/usr/local/sbin:/usr/local/bin:/usr/sbin:/usr/bin:/sbin:/bin''),
      (''TERM'', (case getenv ?env ''TERM'' of
                    None \<Rightarrow> ''xterm-256color''
                  | Some t \<Rightarrow> safe_strncpy t 64)),
      (''HOME'', ''/root''),
      (''container'', ''droidspaces'')]"
    and cap: "\<forall>t. getenv ?env ''TERM'' = Some t \<and> length t < 64 \<and> NUL \<notin> set t
        \<longrightarrow> getenv (setup_container_env ?env) ''TERM'' = Some t"
    by blast+
  from cap pre have t: "getenv (setup_container_env ?env) ''TERM'' = Some ''vt100''"
    by blast
  have "getenv (setup_container_env ?env) ''LANG'' = None"
    by (subst shape) (simp add: getenv_def)
  with idem t show ?thesis by blast
qed

text \<open>
  C10. When /etc/environment cannot be opened, \<open>load_etc_environment\<close> returns at once
  (it has no error to report) and the process environment is the one it was called in.
\<close>

theorem load_etc_environment_unopened:
  "load_etc_environment None env = env"
  by (simp add: load_etc_environment_def)


section \<open>Proofs: network.c and android.c\<close>

lemma snprintf_fits: "length s < sz \<Longrightarrow> snprintf sz s = s"
  by (simp add: snprintf_def)

text \<open>
  C5 (as amended). With an empty configured hostname, \<open>fix_networking_rootfs\<close> makes no
  \<open>sethostname\<close> call and does not write /etc/hostname; the /etc/hosts it writes is the
  fixed three lines, the third being \<open>127.0.1.1\<close>, a tab and no name.
\<close>

theorem fix_networking_rootfs_empty_hostname:
  assumes "hostname cfg = []"
  shows "(\<forall>n. Sethostname n \<notin> set (snd (fix_networking_rootfs cfg h))) \<and>
         (\<forall>c. Write_file ''/etc/hostname'' c \<notin> set (snd (fix_networking_rootfs cfg h))) \<and>
         (\<forall>c. Write_file ''/etc/hosts'' c \<in> set (snd (fix_networking_rootfs cfg h))
              \<longleftrightarrow> c = hosts_no_name) \<and>
         has_line_from ''127.0.1.1'' hosts_no_name"
proof (intro conjI allI)
  fix n
  show "Sethostname n \<notin> set (snd (fix_networking_rootfs cfg h))"
    using assms
    by (auto simp: fix_networking_rootfs_def Let_def c_str_def split: prod.splits)
next
  fix c
  show "Write_file ''/etc/hostname'' c \<notin> set (snd (fix_networking_rootfs cfg h))"
    using assms
    by (auto simp: fix_networking_rootfs_def Let_def c_str_def split: prod.splits)
next
  fix c
  show "Write_file ''/etc/hosts'' c \<in> set (snd (fix_networking_rootfs cfg h))
              \<longleftrightarrow> c = hosts_no_name"
    using assms
    by (auto simp: fix_networking_rootfs_def Let_def hosts_no_name_def snprintf_fits c_str_def
          split: prod.splits)
next
  show "has_line_from ''127.0.1.1'' hosts_no_name"
    by (simp add: has_line_from_def hosts_no_name_def NL_def TAB_def)
qed

theorem fix_networking_rootfs_empty_hostname_witness:
  "hostname cfg_no_hostname = [] \<and>
   (\<forall>n. Sethostname n \<notin> set (snd (fix_networking_rootfs cfg_no_hostname linux_host))) \<and>
   (\<forall>c. Write_file ''/etc/hostname'' c
          \<notin> set (snd (fix_networking_rootfs cfg_no_hostname linux_host))) \<and>
   Write_file ''/etc/hosts'' hosts_no_name
     \<in> set (snd (fix_networking_rootfs cfg_no_hostname linux_host))"
proof -
  have h: "hostname cfg_no_hostname = []"
    by (simp add: cfg_no_hostname_def)
  from fix_networking_rootfs_empty_hostname [OF h, of linux_host] h show ?thesis
    by blast
qed

text \<open>
  The sentence of the spec fails there: with the empty hostname the /etc/hosts written
  has a line that starts with \<open>127.0.1.1\<close>.
\<close>

theorem hosts_empty_hostname_counterexample:
  "hostname cfg_no_hostname = [] \<and>
   Write_file ''/etc/hosts'' hosts_no_name
     \<in> set (snd (fix_networking_rootfs cfg_no_hostname linux_host)) \<and>
   has_line_from ''127.0.1.1'' hosts_no_name"
  by (simp add: fix_networking_rootfs_def Let_def hosts_no_name_def snprintf_fits
        cfg_no_hostname_def linux_host_def is_android_def getenv_def has_line_from_def
        c_str_def NL_def TAB_def)

text \<open>
  The DNS properties are read pair by pair in the table's order, and the first pair
  whose \<open>dns1\<close> value is not empty gives both servers: on an Android host the buffers
  that \<open>android_fill_dns_from_props\<close> leaves are those of \<open>dns_first_pair\<close>, whatever
  they held before.
\<close>

lemma android_fill_dns_first_pair:
  assumes "is_android h"
  shows "(case android_fill_dns_from_props h d1 d2 64 of (r, a, b, cmds) \<Rightarrow> (a, b))
         = dns_first_pair h"
  using assms
  by (simp add: android_fill_dns_from_props_def dns_props_def dns_first_pair_def
        prop_value_def Let_def)

lemma android_fill_dns_order:
  assumes "is_android h"
  shows "(case android_fill_dns_from_props h d1 d2 64 of (r, a, b, cmds) \<Rightarrow> cmds)
         \<in> {[''getprop net.dns1'', ''getprop net.dns2''],
            [''getprop net.dns1'', ''getprop net.eth0.dns1'', ''getprop net.eth0.dns2''],
            [''getprop net.dns1'', ''getprop net.eth0.dns1'', ''getprop net.wlan0.dns1'',
             ''getprop net.wlan0.dns2''],
            [''getprop net.dns1'', ''getprop net.eth0.dns1'', ''getprop net.wlan0.dns1'']}"
  using assms
  by (simp add: android_fill_dns_from_props_def dns_props_def Let_def snprintf_def)

text \<open>
  When no pair has a \<open>dns1\<close> value, both buffers are left empty: the defaults the
  caller had put there are gone, and the /etc/resolv.conf it writes is the one line
  \<open>nameserver\<close> with no address.
\<close>

lemma resolv_conf_without_props:
  assumes "is_android h" and "dns_first_pair h = ([], [])"
  shows "Write_file ''/etc/resolv.conf'' (''nameserver '' @ [NL])
           \<in> set (snd (fix_networking_rootfs cfg h))"
proof -
  from android_fill_dns_first_pair [OF assms(1), of "''8.8.8.8''" "''8.8.4.4''"] assms(2)
  obtain r cmds where
    "android_fill_dns_from_props h ''8.8.8.8'' ''8.8.4.4'' 64 = (r, [], [], cmds)"
    by (cases "android_fill_dns_from_props h ''8.8.8.8'' ''8.8.4.4'' 64") auto
  with assms(1) show ?thesis
    by (simp add: fix_networking_rootfs_def Let_def snprintf_fits)
qed

text \<open>
  C4, at the failing input: on an Android host where \<open>getprop\<close> prints an empty line
  for each of the DNS properties, the /etc/resolv.conf written holds an empty
  nameserver entry and neither of the default resolvers.
\<close>

theorem resolv_conf_empty_nameserver:
  "is_android android_host_no_dns \<and>
   Write_file ''/etc/resolv.conf'' (''nameserver '' @ [NL])
     \<in> set (snd (fix_networking_rootfs cfg_no_hostname android_host_no_dns)) \<and>
   Write_file ''/etc/resolv.conf''
       (''nameserver 8.8.8.8'' @ [NL] @ ''nameserver 8.8.4.4'' @ [NL])
     \<notin> set (snd (fix_networking_rootfs cfg_no_hostname android_host_no_dns))"
  by code_simp

theorem resolv_conf_empty_nameserver_witness:
  "Write_file ''/etc/resolv.conf'' (''nameserver '' @ [NL])
     \<in> set (snd (fix_networking_rootfs cfg_no_hostname android_host_no_dns))"
  using resolv_conf_empty_nameserver by blast

section \<open>Proofs: android_seccomp.c\<close>

lemmas bpf_consts = BPF_LD_def BPF_W_def BPF_ABS_def BPF_JMP_def BPF_JA_def BPF_JEQ_def
  BPF_JSET_def BPF_K_def BPF_RET_def BPF_STMT_def BPF_JUMP_def

lemmas seccomp_consts = SECCOMP_RET_ALLOW_def SECCOMP_RET_TRAP_def SECCOMP_RET_ERRNO_def
  SECCOMP_RET_DATA_def EPERM_def ENOSYS_def

lemma ucast_zero_small:
  fixes w :: "64 word"
  assumes "unat w < 2 ^ 32"
  shows "((ucast w :: 32 word) = 0) = (w = 0)"
proof -
  have "unat (ucast w :: 32 word) = take_bit 32 (unat w)"
    by (simp add: unsigned_ucast_eq)
  with assms have "unat (ucast w :: 32 word) = unat w"
    by (simp add: take_bit_nat_eq_self)
  then show ?thesis
    by (metis unat_eq_zero)
qed

lemma low_word_mask:
  "((ucast (x :: 64 word) :: 32 word) AND 0x7E020000 = 0) = (x AND 0x7E020000 = 0)"
proof -
  have a: "(ucast (x AND 0x7E020000) :: 32 word) = ucast x AND 0x7E020000"
    by (simp add: unsigned_and_eq)
  have "x AND 0x7E020000 \<le> 0x7E020000" by (rule word_and_le1)
  then have "unat (x AND 0x7E020000) < 2 ^ 32"
    by (simp add: word_le_nat_alt)
  from ucast_zero_small [OF this] a show ?thesis by simp
qed

text \<open>
  C2. On a build for one of the four architectures, the filter that
  \<open>android_seccomp_setup\<close> installs gives every system call the verdict of the spec's
  first-match classification: ALLOW on another architecture, TRAP for \<open>reboot\<close>,
  ERRNO(ENOSYS) for \<open>keyctl\<close>, \<open>add_key\<close> and \<open>request_key\<close>, ERRNO(EPERM) for
  \<open>unshare\<close> and \<open>clone\<close> whose first argument meets the mask 0x7E020000 exactly when
  \<open>is_systemd\<close> is set and the probed major version is below 5, and ALLOW otherwise.
\<close>

theorem seccomp_filter_classifies:
  assumes "audit_arch (t_arch tg) = Some a"
  shows "seccomp_verdict (snd (android_seccomp_setup tg is_systemd (Some (major, minor)) True)) d
         = Some (seccomp_classify tg a is_systemd major d)"
  using assms
  by (auto simp: seccomp_verdict_def android_seccomp_setup_def seccomp_filter_def
      seccomp_classify_def bpf_consts seccomp_load_def ns_mask_def low_word_mask
      seccomp_consts)

theorem seccomp_filter_classifies_witness:
  "audit_arch (t_arch aarch64_target) = Some 0xC00000B7 \<and>
   seccomp_verdict (snd (android_seccomp_setup aarch64_target 1 (Some (4, 14)) True))
      (syscall_on_aarch64 97 CLONE_NEWNS) = Some (SECCOMP_RET_ERRNO OR EPERM) \<and>
   seccomp_verdict (snd (android_seccomp_setup aarch64_target 1 (Some (4, 14)) True))
      (syscall_on_aarch64 97 0) = Some SECCOMP_RET_ALLOW \<and>
   seccomp_verdict (snd (android_seccomp_setup aarch64_target 1 (Some (5, 15)) True))
      (syscall_on_aarch64 97 CLONE_NEWNS) = Some SECCOMP_RET_ALLOW \<and>
   seccomp_verdict (snd (android_seccomp_setup aarch64_target 0 (Some (4, 14)) True))
      (syscall_on_aarch64 220 CLONE_NEWNS) = Some SECCOMP_RET_ALLOW \<and>
   seccomp_verdict (snd (android_seccomp_setup aarch64_target 1 (Some (4, 14)) True))
      (syscall_on_aarch64 142 0) = Some SECCOMP_RET_TRAP \<and>
   seccomp_verdict (snd (android_seccomp_setup aarch64_target 1 (Some (4, 14)) True))
      (syscall_on_aarch64 219 0) = Some (SECCOMP_RET_ERRNO OR ENOSYS)"
proof -
  have a: "audit_arch (t_arch aarch64_target) = Some 0xC00000B7"
    by (simp add: aarch64_target_def)
  show ?thesis
    by (simp add: a seccomp_filter_classifies [OF a])
       (simp add: seccomp_classify_def aarch64_target_def syscall_on_aarch64_def
          CLONE_NEWNS_def seccomp_consts)
qed

text \<open>
  C6, at the failing input: \<open>get_kernel_version\<close> fails and stores nothing, so \<open>major\<close>
  keeps its initial 0, which is below 5; with \<open>is_systemd\<close> set the filter installed
  answers \<open>unshare(CLONE_NEWNS)\<close> with ERRNO(EPERM), as on a legacy kernel.
\<close>

theorem unparsed_kernel_blocks_unshare:
  "seccomp_verdict (snd (android_seccomp_setup aarch64_target 1 None True))
      (syscall_on_aarch64 97 CLONE_NEWNS) = Some (SECCOMP_RET_ERRNO OR EPERM)"
  by (simp add: seccomp_verdict_def android_seccomp_setup_def seccomp_filter_def
      bpf_consts seccomp_load_def ns_mask_def aarch64_target_def syscall_on_aarch64_def
      CLONE_NEWNS_def seccomp_consts)

theorem unparsed_kernel_blocks_unshare_witness:
  "seccomp_verdict (snd (android_seccomp_setup aarch64_target 1 None True))
      (syscall_on_aarch64 97 CLONE_NEWNS) \<noteq> Some SECCOMP_RET_ALLOW"
  using unparsed_kernel_blocks_unshare by (simp add: seccomp_consts)

section \<open>Proofs: mount.c\<close>

lemma files_mount_apply_bind:
  "files (mount_apply (Mount src tgt None flags mdata) st) = files st"
  by (simp add: mount_apply_def)

lemma files_bind_mount:
  "p \<noteq> tgt \<Longrightarrow> files (snd (bind_mount K src tgt st)) p = files st p"
  by (auto simp: bind_mount_def domount_def write_file_def files_mount_apply_bind Let_def
        split: option.splits)

lemma files_bind_mount_keeps:
  "files st p \<noteq> None \<Longrightarrow> files (snd (bind_mount K src tgt st)) p = files st p"
  by (auto simp: bind_mount_def domount_def write_file_def files_mount_apply_bind Let_def
        split: option.splits)

lemma create_device_frame:
  "p \<noteq> dev_path rootfs (fst d) \<Longrightarrow> files (create_device K rootfs d st) p = files st p"
  by (cases d) (auto simp: create_device_def mknod_def write_file_def files_bind_mount Let_def
        split: option.splits prod.splits)

lemma create_devices_loop_frame:
  "p \<notin> set (map (\<lambda>d. dev_path rootfs (fst d)) ds) \<Longrightarrow>
   files (foldl (\<lambda>s d. create_device K rootfs d s) st ds) p = files st p"
  by (induction ds arbitrary: st) (auto simp: create_device_frame)

lemma create_device_regular:
  assumes "S_ISREG m" and "files st (dev_path rootfs name) = None"
    and "mknod_err K (dev_path rootfs name) = None \<or>
         (mknod_err K (dev_path rootfs name) \<noteq> Some Err_EEXIST \<and> write_ok K (dev_path rootfs name))"
  shows "files (create_device K rootfs (name, m, dev) st) (dev_path rootfs name) = Some (Reg [])"
proof -
  have "\<not> S_ISCHR m"
    using assms(1) by (auto simp: S_ISREG_def S_ISCHR_def S_IFCHR_def S_IFREG_def)
  then have "node_of m dev = Reg []"
    using assms(1) by (simp add: node_of_def)
  with assms show ?thesis
    by (auto simp: create_device_def mknod_def write_file_def Let_def split: option.splits)
qed

lemma create_devices_loop_regular:
  assumes "distinct (map (\<lambda>d. dev_path rootfs (fst d)) ds)"
    and "(name, m, dev) \<in> set ds" and "S_ISREG m"
    and "files st (dev_path rootfs name) = None"
    and "mknod_err K (dev_path rootfs name) = None \<or>
         (mknod_err K (dev_path rootfs name) \<noteq> Some Err_EEXIST \<and> write_ok K (dev_path rootfs name))"
  shows "files (foldl (\<lambda>s d. create_device K rootfs d s) st ds) (dev_path rootfs name)
         = Some (Reg [])"
  using assms
proof (induction ds arbitrary: st)
  case Nil
  then show ?case by simp
next
  case (Cons d ds)
  show ?case
  proof (cases "d = (name, m, dev)")
    case True
    from Cons.prems(1) True have "dev_path rootfs name \<notin> set (map (\<lambda>d. dev_path rootfs (fst d)) ds)"
      by auto
    then have "files (foldl (\<lambda>s d. create_device K rootfs d s) (create_device K rootfs d st) ds)
                 (dev_path rootfs name) = files (create_device K rootfs d st) (dev_path rootfs name)"
      by (rule create_devices_loop_frame)
    also have "\<dots> = Some (Reg [])"
      unfolding True using Cons.prems(3,4,5) by (rule create_device_regular)
    finally show ?thesis by simp
  next
    case False
    with Cons.prems(2) have mem: "(name, m, dev) \<in> set ds" by simp
    then have "dev_path rootfs name \<in> set (map (\<lambda>d. dev_path rootfs (fst d)) ds)"
      by force
    moreover from Cons.prems(1)
    have "dev_path rootfs (fst d) \<notin> set (map (\<lambda>d. dev_path rootfs (fst d)) ds)"
      by simp
    ultimately have "dev_path rootfs name \<noteq> dev_path rootfs (fst d)"
      by metis
    then have "files (create_device K rootfs d st) (dev_path rootfs name) = None"
      using Cons.prems(4) by (simp add: create_device_frame)
    with Cons.IH [of "create_device K rootfs d st"] Cons.prems mem show ?thesis
      by simp
  qed
qed

text \<open>With every mknod let through, a node is made where nothing was, and nodes stay.\<close>

lemma create_device_allok:
  assumes "\<forall>p. mknod_err K p = None"
  shows "files (create_device K rootfs (name, m, dev) st) =
         (\<lambda>p. if p = dev_path rootfs name \<and> files st p = None
              then Some (node_of m dev) else files st p)"
  using assms
  by (auto simp: create_device_def mknod_def Let_def fun_eq_iff split: option.splits)

lemma create_devices_loop_only:
  assumes "\<forall>p. mknod_err K p = None"
    and "files st p = None"
    and "is_reg (files (foldl (\<lambda>s d. create_device K rootfs d s) st ds) p)"
  shows "\<exists>name m dev. (name, m, dev) \<in> set ds \<and> p = dev_path rootfs name \<and> S_ISREG m"
  using assms(2,3)
proof (induction ds arbitrary: st)
  case Nil
  then show ?case by (simp add: is_reg_def)
next
  case (Cons d ds)
  obtain name m dev where d: "d = (name, m, dev)" by (cases d) auto
  show ?case
  proof (cases "p = dev_path rootfs name")
    case False
    then have "files (create_device K rootfs d st) p = None"
      using Cons.prems(1) d by (simp add: create_device_frame)
    from Cons.IH [OF this] Cons.prems(2) show ?thesis
      by auto
  next
    case True
    show ?thesis
    proof (cases "S_ISREG m")
      case True
      with \<open>p = dev_path rootfs name\<close> d show ?thesis
        by (intro exI [of _ name] exI [of _ m] exI [of _ dev]) simp
    next
      case False
      have keep: "\<And>s. files s p \<noteq> None \<Longrightarrow> \<not> is_reg (files s p) \<Longrightarrow>
          \<not> is_reg (files (foldl (\<lambda>s d. create_device K rootfs d s) s ds) p)" for ds
      proof (induction ds)
        case Nil
        then show ?case by simp
      next
        case (Cons e es)
        obtain n2 m2 d2 where e: "e = (n2, m2, d2)" by (cases e) auto
        have "files (create_device K rootfs e s) p = files s p"
          using Cons.prems(1) unfolding e create_device_allok [OF assms(1)] by auto
        with Cons.IH [of "create_device K rootfs e s"] Cons.prems show ?case
          by simp
      qed
      have "files (create_device K rootfs d st) p = Some (node_of m dev)"
        using Cons.prems(1) True unfolding d create_device_allok [OF assms(1)] by simp
      moreover have "\<not> is_reg (Some (node_of m dev))"
        using False by (simp add: node_of_def is_reg_def)
      ultimately have "\<not> is_reg (files (foldl (\<lambda>s d. create_device K rootfs d s)
                         (create_device K rootfs d st) ds) p)"
        using keep [of "create_device K rootfs d st" ds] by simp
      with Cons.prems(2) show ?thesis by simp
    qed
  qed
qed

lemma mode_chr1: "\<not> S_ISREG (S_IFCHR OR 0x1B6)"
  by (simp add: S_ISREG_def S_IFMT_def S_IFREG_def S_IFCHR_def)
lemma mode_chr2: "\<not> S_ISREG (S_IFCHR OR 0x180)"
  by (simp add: S_ISREG_def S_IFMT_def S_IFREG_def S_IFCHR_def)
lemma mode_reg: "S_ISREG (S_IFREG OR 0)"
  by (simp add: S_ISREG_def S_IFMT_def S_IFREG_def S_IFCHR_def)

lemma tty_names: "tty_name 1 = ''tty1''" "tty_name 2 = ''tty2''" "tty_name 3 = ''tty3''" "tty_name 4 = ''tty4''"
   "tty_name 5 = ''tty5''" "tty_name 6 = ''tty6''"
  by (simp_all add: tty_name_def digit_char_def)

lemma tty_name_Suc0: "tty_name (Suc 0) = ''tty1''"
  by (simp add: tty_name_def digit_char_def)

lemma devices_regular_all:
  "\<forall>d \<in> set devices. S_ISREG (fst (snd d)) \<longrightarrow> fst d \<in> set (map tty_name [1, 2, 3, 4])"
  unfolding devices_def
  by (simp add: mode_chr1 mode_chr2 mode_reg tty_names tty_name_Suc0)

lemma devices_regular_names:
  "(name, m, dev) \<in> set devices \<Longrightarrow> S_ISREG m \<Longrightarrow>
   name \<in> set (map tty_name [1, 2, 3, 4])"
  using devices_regular_all by force

lemma devices_tty_regular:
  "i \<in> {1, 2, 3, 4} \<Longrightarrow> \<exists>m dev. (tty_name i, m, dev) \<in> set devices \<and> S_ISREG m"
proof -
  assume "i \<in> {1, 2, 3, 4}"
  then have "(tty_name i, S_IFREG OR 0, (0, 0)) \<in> set devices"
    unfolding devices_def by (auto simp: tty_names tty_name_Suc0)
  with mode_reg show ?thesis by blast
qed


lemma dev_path_fits:
  "length rootfs + 12 < PATH_MAX \<Longrightarrow> length name \<le> 7 \<Longrightarrow>
   dev_path rootfs name = rootfs @ ''/dev/'' @ name"
  by (simp add: dev_path_def snprintf_fits)

lemma devices_names_short: "\<forall>d \<in> set devices. length (fst d) \<le> 7"
  unfolding devices_def by simp

lemma devices_names_distinct: "distinct (map fst devices)"
  unfolding devices_def by simp

lemma devices_paths_distinct:
  assumes "length rootfs + 12 < PATH_MAX"
  shows "distinct (map (\<lambda>d. dev_path rootfs (fst d)) devices)"
proof -
  let ?g = "\<lambda>n. rootfs @ ''/dev/'' @ n"
  have eq: "map (\<lambda>d. dev_path rootfs (fst d)) devices = map ?g (map fst devices)"
    using devices_names_short by (simp add: dev_path_fits [OF assms])
  have "inj_on ?g (set (map fst devices))"
    by (simp add: inj_on_def)
  with devices_names_distinct have "distinct (map ?g (map fst devices))"
    unfolding distinct_map [of ?g "map fst devices"] by blast
  then show ?thesis
    by (simp only: eq)
qed

lemma files_symlink:
  "files (symlink t l st) p = (if p = l \<and> files st p = None then Some (Lnk t) else files st p)"
  by (auto simp: symlink_def)

lemma is_reg_symlink:
  "is_reg (files (symlink t l st) p) \<Longrightarrow> is_reg (files st p)"
  by (simp add: files_symlink is_reg_def split: if_splits)

lemma symlink_keeps:
  "files st p \<noteq> None \<Longrightarrow> files (symlink t l st) p = files st p"
  by (auto simp: symlink_def)

lemma tty_name_short: "length (tty_name i) \<le> 7"
  by (simp add: tty_name_def)

lemma create_devices_makes_tty:
  assumes fits: "length rootfs + 12 < PATH_MAX"
    and empty: "\<forall>p. below (rootfs @ ''/dev'') p \<longrightarrow> files st p = None"
    and i: "i \<in> {1, 2, 3, 4}"
    and ok: "mknod_err K (rootfs @ ''/dev/'' @ tty_name i) = None \<or>
            (mknod_err K (rootfs @ ''/dev/'' @ tty_name i) \<noteq> Some Err_EEXIST \<and>
             write_ok K (rootfs @ ''/dev/'' @ tty_name i))"
  shows "made_regular st (snd (create_devices K rootfs st)) (rootfs @ ''/dev/'' @ tty_name i)"
proof -
  let ?p = "rootfs @ ''/dev/'' @ tty_name i"
  let ?L = "foldl (\<lambda>s d. create_device K rootfs d s) st devices"
  have p: "dev_path rootfs (tty_name i) = ?p"
    by (rule dev_path_fits [OF fits tty_name_short])
  have "below (rootfs @ ''/dev'') ?p"
    by (simp add: below_def)
  with empty have none: "files st ?p = None"
    by blast
  from devices_tty_regular [OF i] obtain m dev where
    mem: "(tty_name i, m, dev) \<in> set devices" and reg: "S_ISREG m"
    by blast
  have "files ?L (dev_path rootfs (tty_name i)) = Some (Reg [])"
    using devices_paths_distinct [OF fits] mem reg none ok
    unfolding p [symmetric] by (rule create_devices_loop_regular)
  then have "files ?L ?p = Some (Reg [])"
    by (simp only: p)
  then have "files (snd (create_devices K rootfs st)) ?p = Some (Reg [])"
    by (simp add: create_devices_def Let_def symlink_keeps)
  with none show ?thesis
    by (simp add: made_regular_def is_reg_def)
qed

lemma create_devices_makes_only:
  assumes fits: "length rootfs + 12 < PATH_MAX"
    and allok: "\<forall>p. mknod_err K p = None"
    and made: "made_regular st (snd (create_devices K rootfs st)) p"
  shows "p \<in> set (map (\<lambda>i. rootfs @ ''/dev/'' @ tty_name i) [1, 2, 3, 4])"
proof -
  let ?L = "foldl (\<lambda>s d. create_device K rootfs d s) st devices"
  from made have none: "files st p = None"
    and reg: "is_reg (files (snd (create_devices K rootfs st)) p)"
    by (simp_all add: made_regular_def)
  from reg have "is_reg (files ?L p)"
    by (auto simp: create_devices_def Let_def dest!: is_reg_symlink)
  from create_devices_loop_only [OF allok none this] obtain name m dev where
    mem: "(name, m, dev) \<in> set devices" and p: "p = dev_path rootfs name" and m: "S_ISREG m"
    by blast
  from devices_regular_names [OF mem m] obtain i where
    i: "i \<in> set [1, 2, 3, 4]" and name: "name = tty_name i"
    by auto
  have "p = rootfs @ ''/dev/'' @ tty_name i"
    unfolding p name by (rule dev_path_fits [OF fits tty_name_short])
  with i show ?thesis
    by auto
qed

text \<open>
  C7 (as amended). \<open>create_devices\<close> has no \<open>tty_count\<close>: whatever the configuration,
  on an empty /dev whose paths fit \<open>PATH_MAX\<close> it makes the placeholder regular files
  \<open>tty1\<close>, \<open>tty2\<close>, \<open>tty3\<close> and \<open>tty4\<close> (by \<open>mknod\<close>, or by \<open>write_file\<close> when
  \<open>mknod\<close> fails with another error than EEXIST), and when every \<open>mknod\<close> is let through
  these four are the only regular files it makes.
\<close>

theorem create_devices_placeholders:
  assumes fits: "length rootfs + 12 < PATH_MAX"
    and empty: "\<forall>p. below (rootfs @ ''/dev'') p \<longrightarrow> files st p = None"
  shows "(\<forall>i \<in> {1, 2, 3, 4}.
            mknod_err K (rootfs @ ''/dev/'' @ tty_name i) = None \<or>
            (mknod_err K (rootfs @ ''/dev/'' @ tty_name i) \<noteq> Some Err_EEXIST \<and>
             write_ok K (rootfs @ ''/dev/'' @ tty_name i))
            \<longrightarrow> made_regular st (snd (create_devices K rootfs st)) (rootfs @ ''/dev/'' @ tty_name i)) \<and>
         ((\<forall>p. mknod_err K p = None) \<longrightarrow>
            (\<forall>p. made_regular st (snd (create_devices K rootfs st)) p
                 \<longleftrightarrow> p \<in> set (map (\<lambda>i. rootfs @ ''/dev/'' @ tty_name i) [1, 2, 3, 4])))"
proof (intro conjI ballI impI allI iffI)
  fix i :: nat
  assume "i \<in> {1, 2, 3, 4}"
    and "mknod_err K (rootfs @ ''/dev/'' @ tty_name i) = None \<or>
            (mknod_err K (rootfs @ ''/dev/'' @ tty_name i) \<noteq> Some Err_EEXIST \<and>
             write_ok K (rootfs @ ''/dev/'' @ tty_name i))"
  with fits empty
  show "made_regular st (snd (create_devices K rootfs st)) (rootfs @ ''/dev/'' @ tty_name i)"
    by (rule create_devices_makes_tty)
next
  fix p
  assume "\<forall>p. mknod_err K p = None"
    and "made_regular st (snd (create_devices K rootfs st)) p"
  with fits show "p \<in> set (map (\<lambda>i. rootfs @ ''/dev/'' @ tty_name i) [1, 2, 3, 4])"
    by (rule create_devices_makes_only)
next
  fix p
  assume allok: "\<forall>p. mknod_err K p = None"
    and "p \<in> set (map (\<lambda>i. rootfs @ ''/dev/'' @ tty_name i) [1, 2, 3, 4])"
  then obtain i :: nat where i: "i \<in> {1, 2, 3, 4}" and p: "p = rootfs @ ''/dev/'' @ tty_name i"
    by auto
  from allok have "mknod_err K (rootfs @ ''/dev/'' @ tty_name i) = None"
    by simp
  then show "made_regular st (snd (create_devices K rootfs st)) p"
    unfolding p using create_devices_makes_tty [OF fits empty i] by blast
qed

theorem create_devices_placeholders_witness:
  "length ''/r'' + 12 < PATH_MAX \<and>
   made_regular empty_fs (snd (create_devices root_kernel ''/r'' empty_fs)) ''/r/dev/tty1'' \<and>
   made_regular empty_fs (snd (create_devices root_kernel ''/r'' empty_fs)) ''/r/dev/tty4'' \<and>
   \<not> made_regular empty_fs (snd (create_devices root_kernel ''/r'' empty_fs)) ''/r/dev/tty5'' \<and>
   \<not> made_regular empty_fs (snd (create_devices root_kernel ''/r'' empty_fs)) ''/r/dev/null''"
proof -
  have fits: "length ''/r'' + 12 < PATH_MAX"
    by (simp add: PATH_MAX_def)
  have empty: "\<forall>p. below (''/r'' @ ''/dev'') p \<longrightarrow> files empty_fs p = None"
    by (simp add: empty_fs_def)
  have allok: "\<forall>p. mknod_err root_kernel p = None"
    by (simp add: root_kernel_def)
  from create_devices_placeholders [OF fits empty, of root_kernel] allok
  have only: "\<And>p. made_regular empty_fs (snd (create_devices root_kernel ''/r'' empty_fs)) p
             = (p \<in> set (map (\<lambda>i. ''/r'' @ ''/dev/'' @ tty_name i) [1, 2, 3, 4]))"
    by blast
  show ?thesis
    by (simp add: only tty_names tty_name_Suc0 PATH_MAX_def)
qed

text \<open>
  The sentence of the spec fails on this code at both ends: with \<open>tty_count = 0\<close> it asks
  for no placeholder and \<open>tty1\<close> is made; with \<open>tty_count = 6\<close> it asks for \<open>tty5\<close> and
  none is made.
\<close>

theorem create_devices_tty_count_counterexample:
  "tty_count cfg_no_hostname = 0 \<and>
   spec_placeholders (tty_count cfg_no_hostname) = [] \<and>
   made_regular empty_fs (snd (create_devices root_kernel ''/r'' empty_fs)) ''/r/dev/tty1'' \<and>
   tty_count cfg_six_ttys = 6 \<and>
   ''tty5'' \<in> set (spec_placeholders (tty_count cfg_six_ttys)) \<and>
   \<not> made_regular empty_fs (snd (create_devices root_kernel ''/r'' empty_fs)) ''/r/dev/tty5''"
proof -
  have fits: "length ''/r'' + 12 < PATH_MAX"
    by (simp add: PATH_MAX_def)
  have empty: "\<forall>p. below (''/r'' @ ''/dev'') p \<longrightarrow> files empty_fs p = None"
    by (simp add: empty_fs_def)
  have allok: "\<forall>p. mknod_err root_kernel p = None"
    by (simp add: root_kernel_def)
  have "made_regular empty_fs (snd (create_devices root_kernel ''/r'' empty_fs))
          (''/r'' @ ''/dev/'' @ tty_name 1)"
    by (rule create_devices_makes_tty [OF fits empty]) (simp_all add: allok)
  then have a: "made_regular empty_fs (snd (create_devices root_kernel ''/r'' empty_fs))
          ''/r/dev/tty1''"
    by (simp add: tty_names tty_name_Suc0)
  have b: "\<not> made_regular empty_fs (snd (create_devices root_kernel ''/r'' empty_fs))
          ''/r/dev/tty5''"
    using create_devices_makes_only [OF fits allok, of empty_fs "''/r/dev/tty5''"]
    by (auto simp: tty_names tty_name_Suc0)
  have c: "''tty5'' \<in> set (spec_placeholders (tty_count cfg_six_ttys))"
    by (simp add: spec_placeholders_def cfg_six_ttys_def tty_names [symmetric]
          del: upt_Suc)
  show ?thesis
    using a b c by (simp add: cfg_no_hostname_def cfg_six_ttys_def spec_placeholders_def)
qed

text \<open>
  \<open>setup_dev\<close> without hardware access runs \<open>create_devices\<close> on such an empty /dev: the
  tmpfs it has just mounted.
\<close>

lemma setup_dev_populates:
  assumes fits: "length rootfs + 12 < PATH_MAX"
    and ok: "mount_err K (rootfs @ ''/dev'') = None"
  shows "\<exists>st0. setup_dev K rootfs 0 st = create_devices K rootfs st0 \<and>
               (\<forall>p. below (rootfs @ ''/dev'') p \<longrightarrow> files st0 p = None)"
proof -
  have devp: "snprintf PATH_MAX (rootfs @ ''/dev'') = rootfs @ ''/dev''"
    using fits by (simp add: snprintf_fits)
  let ?st0 = "mount_apply (Mount (Some ''none'') (rootfs @ ''/dev'') (Some ''tmpfs'')
                 (MS_NOSUID OR MS_NOEXEC) (Some ''size=4M,mode=755'')) st"
  have "setup_dev K rootfs 0 st = create_devices K rootfs ?st0"
    using ok by (simp add: setup_dev_def devp domount_def)
  moreover have "\<forall>p. below (rootfs @ ''/dev'') p \<longrightarrow> files ?st0 p = None"
    by (simp add: mount_apply_def)
  ultimately show ?thesis by blast
qed


section \<open>Proofs: hardware.c\<close>

subsection \<open>The buffers that fgets fills\<close>

lemma fgets_take_append: "fst (fgets_take n s) @ snd (fgets_take n s) = s"
  by (induction n s rule: fgets_take.induct) (auto split: prod.splits)

lemma fgets_take_len: "length (fst (fgets_take n s)) \<le> n"
  by (induction n s rule: fgets_take.induct) (auto split: prod.splits)

lemma fgets_take_nl: "NL \<notin> set (butlast (fst (fgets_take n s)))"
  by (induction n s rule: fgets_take.induct) (auto split: prod.splits)

lemma fgets_all_Nil: "fgets_all sz [] = []"
  by (simp add: fgets_all.simps fgets_def)

lemma fgets_all_small: "sz < 2 \<Longrightarrow> fgets_all sz s = []"
  by (simp add: fgets_all.simps)

lemma fgets_all_step:
  "2 \<le> sz \<Longrightarrow> s \<noteq> [] \<Longrightarrow>
   fgets_all sz s = fst (fgets_take (sz - 1) s) # fgets_all sz (snd (fgets_take (sz - 1) s))"
  by (subst fgets_all.simps) (simp add: fgets_def split: prod.splits)

lemma fgets_take_nonempty: "0 < n \<Longrightarrow> s \<noteq> [] \<Longrightarrow> fst (fgets_take n s) \<noteq> []"
  by (cases n; cases s) (auto split: prod.splits)

lemma fgets_all_concat: "2 \<le> sz \<Longrightarrow> concat (fgets_all sz s) = s"
proof (induction s rule: length_induct)
  case (1 s)
  show ?case
  proof (cases "s = []")
    case True
    then show ?thesis by (simp add: fgets_all_Nil)
  next
    case False
    let ?r = "snd (fgets_take (sz - 1) s)"
    have "length ?r < length s"
      using fgets_take_shorter [of "sz - 1" s] False 1(2) by simp
    with 1 have "concat (fgets_all sz ?r) = ?r"
      by blast
    then show ?thesis
      using False 1(2) by (simp add: fgets_all_step fgets_take_append)
  qed
qed

lemma fgets_all_buffers:
  "l \<in> set (fgets_all sz s) \<Longrightarrow> l \<noteq> [] \<and> length l \<le> sz - 1 \<and> NL \<notin> set (butlast l)"
proof (induction s rule: length_induct)
  case (1 s)
  show ?case
  proof (cases "sz < 2 \<or> s = []")
    case True
    with 1(2) show ?thesis by (auto simp: fgets_all_Nil fgets_all_small)
  next
    case False
    let ?a = "fst (fgets_take (sz - 1) s)"
    let ?r = "snd (fgets_take (sz - 1) s)"
    have shorter: "length ?r < length s"
      using fgets_take_shorter [of "sz - 1" s] False by simp
    from False 1(2) have "l = ?a \<or> l \<in> set (fgets_all sz ?r)"
      by (simp add: fgets_all_step)
    then show ?thesis
    proof
      assume "l = ?a"
      then show ?thesis
        using False fgets_take_nonempty [of "sz - 1" s] fgets_take_len [of "sz - 1" s]
          fgets_take_nl [of "sz - 1" s]
        by simp
    next
      assume "l \<in> set (fgets_all sz ?r)"
      with 1(1) shorter show ?thesis
        by blast
    qed
  qed
qed

lemma fgets_all_subset: "2 \<le> sz \<Longrightarrow> l \<in> set (fgets_all sz s) \<Longrightarrow> set l \<subseteq> set s"
  using fgets_all_concat [of sz s] by (metis UN_I set_concat subsetI)


subsection \<open>The loops as maps\<close>

lemma group_loop_out:
  "fst (foldl (group_step gids) (out, found, mc) ls)
     = out @ concat (map (\<lambda>l. fst (group_line gids l)) ls)"
  by (induction ls arbitrary: out found mc)
     (auto simp: group_step_def split: prod.splits)

lemma group_loop_count:
  "snd (snd (foldl (group_step gids) (out, found, mc) ls))
     = mc + length (filter (\<lambda>l. snd (snd (group_line gids l))) ls)"
  by (induction ls arbitrary: out found mc)
     (auto simp: group_step_def split: prod.splits)

lemma group_loop_found_length:
  "length (fst (snd (foldl (group_step gids) (out, found, mc) ls))) = length found"
  by (induction ls arbitrary: out found mc)
     (auto simp: group_step_def split: prod.splits option.splits)

lemma group_loop_found:
  assumes "j < length found"
  shows "fst (snd (foldl (group_step gids) (out, found, mc) ls)) ! j
     = (found ! j \<or> (\<exists>l \<in> set ls. fst (snd (group_line gids l)) = Some j))"
  using assms
proof (induction ls arbitrary: out found mc)
  case Nil
  then show ?case by simp
next
  case (Cons l ls)
  obtain piece idx md where gl: "group_line gids l = (piece, idx, md)"
    by (cases "group_line gids l") auto
  let ?found = "(case idx of Some i \<Rightarrow> found[i := True] | None \<Rightarrow> found)"
  have len: "j < length ?found"
    using Cons.prems by (simp split: option.splits)
  have step: "?found ! j = (found ! j \<or> idx = Some j)"
  proof (cases idx)
    case None
    then show ?thesis by simp
  next
    case (Some i)
    show ?thesis
      using Cons.prems unfolding Some
      by (cases "i = j") (simp_all add: nth_list_update)
  qed
  show ?case
    using Cons.IH [OF len, of "out @ piece" "if md then mc + 1 else mc"] step
    by (auto simp: group_step_def gl)
qed

lemma append_missing_eq:
  "length fs = length gs \<Longrightarrow>
   append_missing gs fs (out, mc)
     = (out @ concat (map gpu_record (map fst (filter (\<lambda>(g, f). \<not> f) (zip gs fs)))),
        mc + length (filter (\<lambda>(g, f). \<not> f) (zip gs fs)))"
  by (induction gs fs "(out, mc)" arbitrary: out mc rule: append_missing.induct) auto


subsection \<open>Splitting at a separator\<close>

lemma split_on_nonempty: "split_on c s \<noteq> []"
  by (induction s) (auto split: list.splits)

lemma split_on_no_sep: "c \<notin> set a \<Longrightarrow> split_on c a = [a]"
  by (induction a) auto

lemma split_on_append_sep:
  "c \<notin> set a \<Longrightarrow> split_on c (a @ c # rest) = a # split_on c rest"
  by (induction a) auto

lemma split_on_elems: "w \<in> set (split_on c s) \<Longrightarrow> c \<notin> set w"
  by (induction s arbitrary: w) (auto split: if_splits list.splits)

lemma join_on_Cons: "ws \<noteq> [] \<Longrightarrow> join_on c (w # ws) = w @ c # join_on c ws"
  by (cases ws) auto

lemma join_split: "join_on c (split_on c s) = s"
proof (induction s)
  case Nil
  then show ?case by simp
next
  case (Cons x xs)
  show ?case
  proof (cases "x = c")
    case True
    with Cons show ?thesis
      by (simp add: join_on_Cons split_on_nonempty)
  next
    case False
    obtain w ws where ws: "split_on c xs = w # ws"
      using split_on_nonempty [of c xs] by (cases "split_on c xs") auto
    with Cons False show ?thesis
      by (cases ws) auto
  qed
qed

subsection \<open>The colon scan finds the fields\<close>

lemma scan_colons_skip:
  "CHR '':'' \<notin> set a \<Longrightarrow>
   scan_colons (a @ xs) pos n g = scan_colons xs (pos + length a) n g"
  by (induction a arbitrary: pos) auto

lemma scan_colons_no_colon:
  "CHR '':'' \<notin> set a \<Longrightarrow> scan_colons a pos n g = (g, None)"
  using scan_colons_skip [of a "[]" pos n g] by simp

lemma scan_colons_record:
  assumes "CHR '':'' \<notin> set name" and "CHR '':'' \<notin> set pw" and "CHR '':'' \<notin> set gidf"
  shows "scan_colons (name @ '':'' @ pw @ '':'' @ gidf @ '':'' @ users) 0 0 None
         = (Some (length name + length pw + 2),
            Some (length name + length pw + length gidf + 3))"
  using assms by (simp add: scan_colons_skip)

lemma scan_colons_short:
  assumes "split_on CHR '':'' body = ws" and "length ws < 4"
  shows "snd (scan_colons body 0 0 None) = None"
proof -
  have body: "body = join_on CHR '':'' ws"
    using assms(1) join_split [of "CHR '':''" body] by simp
  have nocolon: "\<forall>w \<in> set ws. CHR '':'' \<notin> set w"
    using assms(1) split_on_elems by blast
  from assms(2) split_on_nonempty [of "CHR '':''" body] assms(1)
  consider a where "ws = [a]" | a b where "ws = [a, b]" | a b c where "ws = [a, b, c]"
    by (cases ws; cases "tl ws"; cases "tl (tl ws)"; cases "tl (tl (tl ws))") auto
  then show ?thesis
  proof cases
    case 1
    with body nocolon show ?thesis by (simp add: scan_colons_no_colon)
  next
    case 2
    with body nocolon show ?thesis
      by (simp add: scan_colons_skip scan_colons_no_colon)
  next
    case 3
    with body nocolon show ?thesis
      by (simp add: scan_colons_skip scan_colons_no_colon)
  qed
qed

lemma record_fields_None:
  "record_fields body = None \<Longrightarrow> snd (scan_colons body 0 0 None) = None"
proof -
  assume "record_fields body = None"
  then have "length (split_on CHR '':'' body) < 4"
    by (auto simp: record_fields_def split: list.splits)
  then show ?thesis
    using scan_colons_short by blast
qed

lemma drop_at: "n = length xs \<Longrightarrow> drop n (xs @ ys) = ys"
  by simp

lemma take_at: "n = length xs \<Longrightarrow> take n (xs @ ys) = xs"
  by simp

lemma record_fields_Some:
  assumes "record_fields body = Some (pre, gidf, users)"
  shows "\<exists>g u. scan_colons body 0 0 None = (Some g, Some u) \<and>
               take (u - 1 - g) (drop g body) = gidf \<and> drop u body = users \<and>
               take (u - 1) body = pre \<and> body = pre @ '':'' @ users \<and>
               CHR '':'' \<notin> set gidf"
proof -
  from assms obtain name pw u us where
    ws: "split_on CHR '':'' body = name # pw # gidf # u # us"
    and pre: "pre = name @ '':'' @ pw @ '':'' @ gidf"
    and users: "users = join_on CHR '':'' (u # us)"
    by (auto simp: record_fields_def split: list.splits)
  have nocolon: "CHR '':'' \<notin> set name" "CHR '':'' \<notin> set pw" "CHR '':'' \<notin> set gidf"
    using split_on_elems [of _ "CHR '':''" body] ws by auto
  have body: "body = name @ '':'' @ pw @ '':'' @ gidf @ '':'' @ users"
    using join_split [of "CHR '':''" body] ws users by (simp add: join_on_Cons)
  let ?g = "length name + length pw + 2"
  let ?u = "length name + length pw + length gidf + 3"
  have "scan_colons body 0 0 None = (Some ?g, Some ?u)"
    unfolding body using nocolon by (rule scan_colons_record)
  moreover have "take (?u - 1 - ?g) (drop ?g body) = gidf"
  proof -
    have "drop ?g body = gidf @ '':'' @ users"
      using drop_at [of ?g "name @ '':'' @ pw @ '':''" "gidf @ '':'' @ users"]
      by (simp add: body)
    then show ?thesis by simp
  qed
  moreover have "drop ?u body = users"
    using drop_at [of ?u "name @ '':'' @ pw @ '':'' @ gidf @ '':''" users]
    by (simp add: body)
  moreover have "take (?u - 1) body = pre"
    using take_at [of "?u - 1" "name @ '':'' @ pw @ '':'' @ gidf" "'':'' @ users"]
    by (simp add: body pre)
  moreover have "body = pre @ '':'' @ users"
    unfolding body pre by simp
  ultimately show ?thesis
    using nocolon(3) by blast
qed


subsection \<open>Whole-word members\<close>

lemma split_on_unfold:
  "split_on c u = takeWhile (\<lambda>x. x \<noteq> c) u #
     (case dropWhile (\<lambda>x. x \<noteq> c) u of [] \<Rightarrow> [] | d # r \<Rightarrow> split_on c r)"
  by (induction u) (auto split: list.splits)

lemma first_sep:
  "c \<notin> set a \<Longrightarrow> a @ c # r = p @ c # s \<Longrightarrow>
   (p = a \<and> s = r) \<or> (\<exists>t. p = a @ c # t \<and> r = t @ c # s)"
proof (induction a arbitrary: p)
  case Nil
  then show ?case by (cases p) auto
next
  case (Cons x a)
  then show ?case by (cases p) auto
qed

lemma split_on_member:
  assumes "c \<notin> set w"
  shows "w \<in> set (split_on c u) \<longleftrightarrow> field_of c w u"
proof (induction u rule: length_induct)
  case (1 u)
  let ?a = "takeWhile (\<lambda>x. x \<noteq> c) u"
  have a: "c \<notin> set ?a"
    by (auto dest: set_takeWhileD)
  show ?case
  proof (cases "dropWhile (\<lambda>x. x \<noteq> c) u")
    case Nil
    then have cu: "c \<notin> set u"
      by (metis (mono_tags, lifting) dropWhile_eq_Nil_conv)
    with Nil have split: "split_on c u = [u]"
      by (simp add: split_on_no_sep)
    have "field_of c w u \<longleftrightarrow> w = u"
    proof
      assume "field_of c w u"
      then obtain pre post where u: "u = pre @ w @ post"
        and b: "pre = [] \<or> last pre = c" "post = [] \<or> hd post = c"
        unfolding field_of_def by blast
      from cu u have "c \<notin> set pre" "c \<notin> set post" by auto
      with b have "pre = []" "post = []"
        by (metis last_in_set, metis hd_in_set)
      with u show "w = u" by simp
    next
      assume "w = u"
      then show "field_of c w u"
        unfolding field_of_def by (intro exI [of _ "[]"]) simp
    qed
    with split show ?thesis by simp
  next
    case (Cons d r)
    then have d: "d = c"
      by (metis (mono_tags, lifting) hd_dropWhile list.sel(1) list.distinct(1))
    have u: "u = ?a @ c # r"
      using Cons d by (metis takeWhile_dropWhile_id)
    have split: "split_on c u = ?a # split_on c r"
      using Cons by (subst split_on_unfold) simp
    have "length u = length (?a @ c # r)"
      using u by simp
    then have "length r < length u"
      by simp
    with 1 have IH: "w \<in> set (split_on c r) \<longleftrightarrow> field_of c w r"
      by blast
    have "field_of c w u \<longleftrightarrow> w = ?a \<or> field_of c w r"
    proof
      assume "field_of c w u"
      then obtain pre post where upp: "u = pre @ w @ post"
        and b: "pre = [] \<or> last pre = c" "post = [] \<or> hd post = c"
        unfolding field_of_def by blast
      show "w = ?a \<or> field_of c w r"
      proof (cases "pre = []")
        case True
        with upp u have eq: "?a @ c # r = w @ post" by simp
        have "post \<noteq> []"
        proof
          assume "post = []"
          with eq have "c \<in> set w" by (metis append_Nil2 in_set_conv_decomp)
          with assms show False by simp
        qed
        with b obtain post' where post: "post = c # post'"
          by (cases post) auto
        from first_sep [OF a, of r w post'] eq post assms
        have "w = ?a"
          by auto
        then show ?thesis by simp
      next
        case False
        with b obtain pre0 where pre: "pre = pre0 @ [c]"
          by (metis append_butlast_last_id)
        with upp u have eq: "?a @ c # r = pre0 @ c # (w @ post)" by simp
        from first_sep [OF a eq]
        have "(pre0 = ?a \<and> w @ post = r) \<or> (\<exists>t. pre0 = ?a @ c # t \<and> r = t @ c # w @ post)"
          by simp
        then have "field_of c w r"
        proof
          assume "pre0 = ?a \<and> w @ post = r"
          then have "r = [] @ w @ post" by simp
          with b show ?thesis unfolding field_of_def by blast
        next
          assume "\<exists>t. pre0 = ?a @ c # t \<and> r = t @ c # w @ post"
          then obtain t where "r = (t @ [c]) @ w @ post" by auto
          moreover have "last (t @ [c]) = c" by simp
          ultimately show ?thesis
            unfolding field_of_def using b(2) by blast
        qed
        then show ?thesis by simp
      qed
    next
      assume "w = ?a \<or> field_of c w r"
      then show "field_of c w u"
      proof
        assume "w = ?a"
        with u have "u = [] @ w @ (c # r)" by simp
        then show ?thesis
          unfolding field_of_def by (intro exI [of _ "[]"] exI [of _ "c # r"]) simp
      next
        assume "field_of c w r"
        then obtain pre post where r: "r = pre @ w @ post"
          and b: "pre = [] \<or> last pre = c" "post = [] \<or> hd post = c"
          unfolding field_of_def by blast
        have "u = (?a @ c # pre) @ w @ post"
          using u r by simp
        moreover have "last (?a @ c # pre) = c"
          using b(1) by auto
        ultimately show ?thesis
          unfolding field_of_def using b(2) by blast
      qed
    qed
    with split IH show ?thesis by simp
  qed
qed


subsection \<open>The strstr loop of has_user\<close>

lemma strstr_None:
  "strstr h n = None \<Longrightarrow> take (length n) (drop j h) \<noteq> n"
proof (induction h arbitrary: j)
  case Nil
  then show ?case by (auto split: if_splits)
next
  case (Cons c cs)
  then show ?case by (cases j) (auto split: if_splits)
qed

lemma strstr_Some:
  "strstr h n = Some i \<Longrightarrow>
   take (length n) (drop i h) = n \<and> (\<forall>j<i. take (length n) (drop j h) \<noteq> n)"
proof (induction h arbitrary: i)
  case Nil
  then show ?case by (auto split: if_splits)
next
  case (Cons c cs)
  show ?case
  proof (cases "take (length n) (c # cs) = n")
    case True
    with Cons.prems show ?thesis by simp
  next
    case False
    with Cons.prems obtain i' where i: "i = Suc i'" and s: "strstr cs n = Some i'"
      by auto
    from Cons.IH [OF s] have
      a: "take (length n) (drop i' cs) = n" and b: "\<forall>j<i'. take (length n) (drop j cs) \<noteq> n"
      by blast+
    have "\<forall>j<i. take (length n) (drop j (c # cs)) \<noteq> n"
    proof (intro allI impI)
      fix j assume "j < i"
      then show "take (length n) (drop j (c # cs)) \<noteq> n"
        using False b i by (cases j) auto
    qed
    with a i show ?thesis by simp
  qed
qed

lemma occurs_length:
  "n \<noteq> [] \<Longrightarrow> take (length n) (drop q u) = n \<Longrightarrow> q + length n \<le> length u"
proof -
  assume n: "n \<noteq> []" and t: "take (length n) (drop q u) = n"
  have "length (take (length n) (drop q u)) = min (length n) (length u - q)"
    by simp
  with t have "length n \<le> length u - q"
    by (metis min.cobounded2)
  with n show ?thesis
    by (cases "length n") auto
qed

lemma has_user_from_iff:
  assumes n: "n \<noteq> []" and nul: "NUL \<notin> set u"
  shows "p \<le> length u \<Longrightarrow>
         has_user_from u n p \<longleftrightarrow> (\<exists>q\<ge>p. whole_word_at u n q)"
proof (induction "length u - p" arbitrary: p rule: less_induct)
  case less
  show ?case
  proof (cases "strstr (drop p u) n")
    case None
    have "\<not> (\<exists>q\<ge>p. whole_word_at u n q)"
    proof
      assume "\<exists>q\<ge>p. whole_word_at u n q"
      then obtain q where q: "p \<le> q" and w: "take (length n) (drop q u) = n"
        unfolding whole_word_at_def by blast
      from q have "drop q u = drop (q - p) (drop p u)" by simp
      with w strstr_None [OF None, of "q - p"] show False by simp
    qed
    moreover have "\<not> has_user_from u n p"
      using less.prems None by (subst has_user_from.simps) simp
    ultimately show ?thesis by blast
  next
    case (Some off)
    let ?q = "p + off"
    from strstr_Some [OF Some] have
      occ: "take (length n) (drop ?q u) = n"
      and first: "\<forall>j<off. take (length n) (drop (p + j) u) \<noteq> n"
      by (simp_all add: add.commute)
    from occurs_length [OF n occ] have bound: "?q + length n \<le> length u" .
    from n bound have q1: "?q + 1 \<le> length u"
      by (cases "length n") auto
    have prev: "(?q > 0 \<and> char_at u (?q - 1) = CHR '','') \<longleftrightarrow> (?q > 0 \<and> u ! (?q - 1) = CHR '','')"
      using q1 by (auto simp: char_at_def)
    have nxt: "(char_at u (?q + length n) = CHR '','' \<or> char_at u (?q + length n) = NUL)
               \<longleftrightarrow> (?q + length n = length u \<or> u ! (?q + length n) = CHR '','')"
    proof (cases "?q + length n < length u")
      case True
      then have "u ! (?q + length n) \<noteq> NUL"
        using nul by (metis nth_mem)
      with True show ?thesis by (simp add: char_at_def)
    next
      case False
      with bound have "?q + length n = length u" by simp
      then show ?thesis by (simp add: char_at_def)
    qed
    define chk where "chk \<longleftrightarrow>
        (?q = 0 \<or> (?q > 0 \<and> char_at u (?q - 1) = CHR '','')) \<and>
        (char_at u (?q + length n) = CHR '','' \<or> char_at u (?q + length n) = NUL)"
    have check: "chk \<longleftrightarrow> whole_word_at u n ?q"
      unfolding whole_word_at_def chk_def using occ prev nxt by auto
    have unfold: "has_user_from u n p = (if chk then True else has_user_from u n (?q + 1))"
      unfolding chk_def using less.prems Some
      by (subst has_user_from.simps) (simp add: Let_def)
    show ?thesis
    proof (cases "whole_word_at u n ?q")
      case True
      then have "has_user_from u n p"
        using unfold check by simp
      moreover have "\<exists>q\<ge>p. whole_word_at u n q"
        using True by (intro exI [of _ ?q]) simp
      ultimately show ?thesis by blast
    next
      case False
      then have step: "has_user_from u n p = has_user_from u n (?q + 1)"
        using unfold check by simp
      have "length u - (?q + 1) < length u - p"
        using q1 by simp
      from less.hyps [OF this q1]
      have IH: "has_user_from u n (?q + 1) \<longleftrightarrow> (\<exists>q\<ge>?q + 1. whole_word_at u n q)" .
      have "(\<exists>q\<ge>p. whole_word_at u n q) \<longleftrightarrow> (\<exists>q\<ge>?q + 1. whole_word_at u n q)"
      proof
        assume "\<exists>q\<ge>p. whole_word_at u n q"
        then obtain q where q: "p \<le> q" and w: "whole_word_at u n q" by blast
        have "\<not> q < ?q"
        proof
          assume "q < ?q"
          with q have "q - p < off" and "q = p + (q - p)" by simp_all
          with first w show False
            unfolding whole_word_at_def by metis
        qed
        moreover have "q \<noteq> ?q"
          using w False by blast
        ultimately have "?q + 1 \<le> q" by simp
        with w show "\<exists>q\<ge>?q + 1. whole_word_at u n q" by blast
      next
        assume "\<exists>q\<ge>?q + 1. whole_word_at u n q"
        then obtain q where "?q + 1 \<le> q" and "whole_word_at u n q" by blast
        then show "\<exists>q\<ge>p. whole_word_at u n q"
          by (intro exI [of _ q]) simp
      qed
      with step IH show ?thesis by simp
    qed
  qed
qed


lemma whole_word_field:
  assumes n: "n \<noteq> []"
  shows "(\<exists>q. whole_word_at u n q) \<longleftrightarrow> field_of CHR '','' n u"
proof
  assume "\<exists>q. whole_word_at u n q"
  then obtain q where occ: "take (length n) (drop q u) = n"
    and l: "q = 0 \<or> u ! (q - 1) = CHR '',''"
    and r: "q + length n = length u \<or> u ! (q + length n) = CHR '',''"
    unfolding whole_word_at_def by blast
  from occurs_length [OF n occ] have bound: "q + length n \<le> length u" .
  let ?pre = "take q u" and ?post = "drop (q + length n) u"
  have "take (length n) (drop q u) @ drop (length n) (drop q u) = drop q u"
    by (rule append_take_drop_id)
  then have "drop q u = n @ ?post"
    using occ by (simp add: add.commute)
  then have u: "u = ?pre @ n @ ?post"
    by (metis append_take_drop_id)
  have "?pre = [] \<or> last ?pre = CHR '',''"
  proof (cases "q = 0")
    case True
    then show ?thesis by simp
  next
    case False
    with bound have "take q u \<noteq> []" and "length (take q u) = q"
      by auto
    then have "last (take q u) = take q u ! (q - 1)"
      by (simp add: last_conv_nth)
    also have "\<dots> = u ! (q - 1)"
      using False by simp
    finally have "last (take q u) = u ! (q - 1)" .
    with l False show ?thesis by simp
  qed
  moreover have "?post = [] \<or> hd ?post = CHR '',''"
  proof (cases "q + length n = length u")
    case True
    then show ?thesis by simp
  next
    case False
    with bound have "q + length n < length u" by simp
    then have "hd ?post = u ! (q + length n)"
      by (simp add: hd_drop_conv_nth)
    with r False show ?thesis by simp
  qed
  ultimately show "field_of CHR '','' n u"
    unfolding field_of_def using u by blast
next
  assume "field_of CHR '','' n u"
  then obtain pre post where u: "u = pre @ n @ post"
    and l: "pre = [] \<or> last pre = CHR '',''"
    and r: "post = [] \<or> hd post = CHR '',''"
    unfolding field_of_def by blast
  have "take (length n) (drop (length pre) u) = n"
    by (simp add: u)
  moreover have "length pre = 0 \<or> u ! (length pre - 1) = CHR '',''"
  proof (cases "pre = []")
    case True
    then show ?thesis by simp
  next
    case False
    then have "u ! (length pre - 1) = last pre"
      by (simp add: u nth_append last_conv_nth)
    with l False show ?thesis by simp
  qed
  moreover have "length pre + length n = length u \<or> u ! (length pre + length n) = CHR '',''"
  proof (cases "post = []")
    case True
    then show ?thesis by (simp add: u)
  next
    case False
    have "u ! (length pre + length n) = (pre @ n @ post) ! (length (pre @ n) + 0)"
      by (simp add: u)
    also have "\<dots> = post ! 0"
      by (metis append.assoc nth_append_length_plus)
    also have "\<dots> = hd post"
      using False by (simp add: hd_conv_nth)
    finally show ?thesis
      using r False by simp
  qed
  ultimately show "\<exists>q. whole_word_at u n q"
    unfolding whole_word_at_def by blast
qed

lemma has_user_is_member:
  assumes "NUL \<notin> set users"
  shows "has_user (Some users) (Some ''root'') \<longleftrightarrow> is_member ''root'' users"
proof -
  have n: "''root'' \<noteq> []" by simp
  have "has_user (Some users) (Some ''root'') \<longleftrightarrow> has_user_from users ''root'' 0"
    by (simp add: has_user_def)
  also have "\<dots> \<longleftrightarrow> (\<exists>q\<ge>0. whole_word_at users ''root'' q)"
    by (rule has_user_from_iff [OF n assms]) simp
  also have "\<dots> \<longleftrightarrow> field_of CHR '','' ''root'' users"
    using whole_word_field [OF n, of users] by simp
  also have "\<dots> \<longleftrightarrow> ''root'' \<in> set (split_on CHR '','' users)"
    by (rule split_on_member [symmetric]) simp
  finally show ?thesis
    by (simp add: is_member_def)
qed


subsection \<open>One line of the group file\<close>

lemma line_body_subset: "set (line_body l) \<subseteq> set l"
  by (auto simp: line_body_def split: option.splits dest: in_set_takeD)

lemma group_line_spec:
  assumes nul: "NUL \<notin> set l" and len: "length l \<le> 2047"
  shows "group_line gids l =
     (case record_fields (line_body l) of
        None \<Rightarrow> (l, None, False)
      | Some (pre, gidf, users) \<Rightarrow>
          (case gid_index gids (word_of_int (atoi gidf)) of
             None \<Rightarrow> (l, None, False)
           | Some idx \<Rightarrow>
               if is_member ''root'' users then (l, Some idx, False)
               else (with_root pre users, Some idx, True)))"
proof -
  have cstr: "c_str l = l"
    using nul by (rule c_str_id)
  have copy: "safe_strncpy l 2048 = l"
    using len by (simp add: safe_strncpy_def cstr)
  have unfold: "group_line gids l =
     (case scan_colons (line_body l) 0 0 None of
           (Some g, Some u) \<Rightarrow>
             (let gid_str = take (u - 1 - g) (drop g (line_body l));
                  users = drop u (line_body l);
                  gid_val = atoi gid_str
              in case gid_index gids (word_of_int gid_val) of
                   None \<Rightarrow> (l, None, False)
                 | Some gpu_idx \<Rightarrow>
                     (if \<not> has_user (Some users) (Some ''root'')
                      then ((if length users > 0
                             then take (u - 1) (line_body l) @ '':'' @ users @ '',root'' @ [NL]
                             else take (u - 1) (line_body l) @ '':root'' @ [NL]),
                            Some gpu_idx, True)
                      else (l, Some gpu_idx, False)))
         | _ \<Rightarrow> (l, None, False))"
    unfolding group_line_def Let_def cstr copy line_body_def by (rule refl)
  show ?thesis
  proof (cases "record_fields (line_body l)")
    case None
    from record_fields_None [OF this] obtain x where
      "scan_colons (line_body l) 0 0 None = (x, None)"
      by (cases "scan_colons (line_body l) 0 0 None") auto
    then show ?thesis
      unfolding unfold None by (simp split: option.splits)
  next
    case (Some t)
    obtain pre gidf users where t: "t = (pre, gidf, users)" by (cases t) auto
    from record_fields_Some [OF Some [unfolded t]] obtain g u where
      sc: "scan_colons (line_body l) 0 0 None = (Some g, Some u)"
      and gid: "take (u - 1 - g) (drop g (line_body l)) = gidf"
      and us: "drop u (line_body l) = users"
      and pr: "take (u - 1) (line_body l) = pre"
      by blast
    have "set users \<subseteq> set l"
      using us line_body_subset [of l] by (metis set_drop_subset subset_trans)
    with nul have "NUL \<notin> set users" by blast
    then have hu: "has_user (Some users) (Some ''root'') = is_member ''root'' users"
      by (rule has_user_is_member)
    show ?thesis
      unfolding unfold Some t sc prod.case option.case Let_def gid us pr hu with_root_def
      by (simp split: option.splits)
  qed
qed


subsection \<open>A whole run\<close>


lemma gid_index_None: "gid_index gs g = None \<longleftrightarrow> g \<notin> set gs"
  by (induction gs) auto



lemma setup_gpu_groups_run:
  assumes "etc_group env = Some bytes" and "fin_ok env" and "fout_ok env" and "calloc_ok env"
    and "gids \<noteq> []"
  shows "tmp_written (setup_gpu_groups env gids)
           = Some (concat (group_pieces gids bytes) @
                   concat (map gpu_record (group_missing gids bytes)))"
    and "rename_called (setup_gpu_groups env gids) \<longleftrightarrow>
           (\<exists>l \<in> set (fgets_all 2048 bytes). snd (snd (group_line gids l)))
           \<or> group_missing gids bytes \<noteq> []"
    and "group_after (setup_gpu_groups env gids) =
           (if rename_called (setup_gpu_groups env gids) \<and> rename_ok env
            then tmp_written (setup_gpu_groups env gids) else Some bytes)"
proof -
  let ?ls = "fgets_all 2048 bytes"
  let ?init = "([], replicate (length gids) False, 0 :: nat)"
  obtain out found mc where loop: "foldl (group_step gids) ?init ?ls = (out, found, mc)"
    by (cases "foldl (group_step gids) ?init ?ls") auto
  have out: "out = concat (group_pieces gids bytes)"
    using group_loop_out [of gids "[]" "replicate (length gids) False" 0 ?ls] loop
    by (simp add: group_pieces_def)
  have found: "found = group_found gids bytes"
    using loop by (simp add: group_found_def)
  have mc: "mc = length (filter (\<lambda>l. snd (snd (group_line gids l))) ?ls)"
    using group_loop_count [of gids "[]" "replicate (length gids) False" 0 ?ls] loop
    by simp
  have len: "length found = length gids"
    using group_loop_found_length [of gids "[]" "replicate (length gids) False" 0 ?ls] loop
    by simp
  have app: "append_missing gids found (out, mc)
      = (out @ concat (map gpu_record (group_missing gids bytes)),
         mc + length (filter (\<lambda>(g, f). \<not> f) (zip gids found)))"
    using append_missing_eq [OF len, of out mc] by (simp add: group_missing_def found)
  have pos: "0 < mc + length (filter (\<lambda>(g, f). \<not> f) (zip gids found)) \<longleftrightarrow>
        (\<exists>l \<in> set ?ls. snd (snd (group_line gids l))) \<or> group_missing gids bytes \<noteq> []"
    by (auto simp: mc group_missing_def found filter_empty_conv)
  have run: "setup_gpu_groups env gids =
      (if 0 < mc + length (filter (\<lambda>(g, f). \<not> f) (zip gids found))
       then (if \<not> rename_ok env
             then \<lparr>ret = - 1,
                   tmp_written = Some (out @ concat (map gpu_record (group_missing gids bytes))),
                   rename_called = True, group_after = Some bytes\<rparr>
             else \<lparr>ret = 0,
                   tmp_written = Some (out @ concat (map gpu_record (group_missing gids bytes))),
                   rename_called = True,
                   group_after = Some (out @ concat (map gpu_record (group_missing gids bytes)))\<rparr>)
       else \<lparr>ret = 0,
             tmp_written = Some (out @ concat (map gpu_record (group_missing gids bytes))),
             rename_called = False, group_after = Some bytes\<rparr>)"
    using assms by (simp add: setup_gpu_groups_def Let_def loop app)
  show "tmp_written (setup_gpu_groups env gids)
           = Some (concat (group_pieces gids bytes) @
                   concat (map gpu_record (group_missing gids bytes)))"
    by (simp add: run out)
  show "rename_called (setup_gpu_groups env gids) \<longleftrightarrow>
           (\<exists>l \<in> set (fgets_all 2048 bytes). snd (snd (group_line gids l)))
           \<or> group_missing gids bytes \<noteq> []"
    using pos by (simp add: run)
  show "group_after (setup_gpu_groups env gids) =
           (if rename_called (setup_gpu_groups env gids) \<and> rename_ok env
            then tmp_written (setup_gpu_groups env gids) else Some bytes)"
    by (simp add: run)
qed

lemma group_found_nth:
  assumes "j < length gids"
  shows "group_found gids bytes ! j
         \<longleftrightarrow> (\<exists>l \<in> set (fgets_all 2048 bytes). fst (snd (group_line gids l)) = Some j)"
  using group_loop_found [of j "replicate (length gids) False" gids "[]" 0 "fgets_all 2048 bytes"]
    assms
  by (simp add: group_found_def)

lemma group_found_length: "length (group_found gids bytes) = length gids"
  by (simp add: group_found_def group_loop_found_length)

lemma group_missing_iff:
  "g \<in> set (group_missing gids bytes)
   \<longleftrightarrow> (\<exists>j < length gids. gids ! j = g \<and> \<not> group_found gids bytes ! j)"
proof -
  have "g \<in> set (group_missing gids bytes) \<longleftrightarrow>
        (\<exists>f. (g, f) \<in> set (zip gids (group_found gids bytes)) \<and> \<not> f)"
    by (force simp: group_missing_def)
  also have "\<dots> \<longleftrightarrow> (\<exists>j < length gids. gids ! j = g \<and> \<not> group_found gids bytes ! j)"
    by (auto simp: in_set_zip group_found_length)
  finally show ?thesis .
qed


lemma group_buffer:
  assumes "NUL \<notin> set bytes" and "l \<in> set (fgets_all 2048 bytes)"
  shows "NUL \<notin> set l" and "length l \<le> 2047" and "NL \<notin> set (butlast l)"
proof -
  from fgets_all_subset [of 2048 l bytes] assms show "NUL \<notin> set l" by auto
  from fgets_all_buffers [OF assms(2)] show "length l \<le> 2047" and "NL \<notin> set (butlast l)"
    by simp_all
qed






subsection \<open>The lines of the file and the buffers read\<close>






subsection \<open>The decimal GID\<close>

lemma int_cast_small:
  "- (2 ^ 31) \<le> i \<Longrightarrow> i < 2 ^ 31 \<Longrightarrow> sint (word_of_int i :: 32 word) = i"
  by (simp add: sint_sbintrunc' signed_take_bit_int_eq_self)





lemma digit_char_digit:
  assumes "d < 10"
  shows "isdigit (digit_char d) \<and> digit_val (digit_char d) = int d
         \<and> \<not> isspace (digit_char d) \<and> digit_char d \<noteq> CHR ''-'' \<and> digit_char d \<noteq> CHR ''+''"
proof -
  from assms have "d \<in> {0, 1, 2, 3, 4, 5, 6, 7, 8, 9}" by auto
  then show ?thesis
    by (auto simp: digit_char_def isdigit_def digit_val_def isspace_def)
qed

lemma strtol_digits_show_nat:
  "strtol_digits a (show_nat n @ rest)
   = strtol_digits (a * 10 ^ length (show_nat n) + int n) rest"
proof (induction n arbitrary: a rest rule: show_nat.induct)
  case (1 n)
  show ?case
  proof (cases "n < 10")
    case True
    with digit_char_digit [OF True] show ?thesis
      by (subst (1 2) show_nat.simps) simp
  next
    case False
    have d: "n mod 10 < 10" by simp
    have "strtol_digits a (show_nat n @ rest)
          = strtol_digits a (show_nat (n div 10) @ (digit_char (n mod 10) # rest))"
      using False by (subst show_nat.simps) simp
    also have "\<dots> = strtol_digits (a * 10 ^ length (show_nat (n div 10)) + int (n div 10))
                         (digit_char (n mod 10) # rest)"
      using False by (rule 1)
    also have "\<dots> = strtol_digits ((a * 10 ^ length (show_nat (n div 10)) + int (n div 10)) * 10
                                   + int (n mod 10)) rest"
      using digit_char_digit [OF d] by simp
    also have "(a * 10 ^ length (show_nat (n div 10)) + int (n div 10)) * 10 + int (n mod 10)
               = a * 10 ^ length (show_nat n) + int n"
    proof -
      have "length (show_nat n) = Suc (length (show_nat (n div 10)))"
        using False by (subst show_nat.simps) simp
      moreover have "int (n div 10) * 10 + int (n mod 10) = int n"
        by (metis mult.commute of_nat_add of_nat_mult of_nat_numeral div_mult_mod_eq)
      ultimately show ?thesis
        by (simp add: algebra_simps)
    qed
    finally show ?thesis .
  qed
qed

lemma show_nat_hd:
  "\<exists>d r. d < 10 \<and> show_nat n = digit_char d # r"
proof (induction n rule: show_nat.induct)
  case (1 n)
  show ?case
  proof (cases "n < 10")
    case True
    then show ?thesis by (subst show_nat.simps) auto
  next
    case False
    with 1 obtain d r where "d < 10" "show_nat (n div 10) = digit_char d # r" by blast
    with False show ?thesis by (subst show_nat.simps) auto
  qed
qed

lemma strtol_show_nat:
  assumes "int n \<le> LONG_MAX"
  shows "strtol (show_nat n) = int n"
proof -
  from show_nat_hd [of n] obtain d r where d: "d < 10" and s: "show_nat n = digit_char d # r"
    by blast
  have "strtol_digits 0 (show_nat n) = int n"
    using strtol_digits_show_nat [of 0 n "[]"] by simp
  moreover have "LONG_MIN \<le> int n"
    by (simp add: LONG_MIN_def)
  ultimately show ?thesis
    using digit_char_digit [OF d] assms by (simp add: strtol_def Let_def s [symmetric]) (simp add: s)
qed

lemma atoi_show_int:
  assumes "- (2 ^ 31) \<le> i" and "i < 2 ^ 31"
  shows "atoi (show_int i) = i"
proof -
  have range: "i \<le> LONG_MAX" "LONG_MIN \<le> i"
    using assms by (simp_all add: LONG_MAX_def LONG_MIN_def)
  have "strtol (show_int i) = i"
  proof (cases "i < 0")
    case True
    have "strtol_digits 0 (show_nat (nat (- i))) = int (nat (- i))"
      using strtol_digits_show_nat [of 0 "nat (- i)" "[]"] by simp
    with True range show ?thesis
      by (simp add: show_int_def strtol_def isspace_def Let_def)
  next
    case False
    with range show ?thesis
      using strtol_show_nat [of "nat i"] by (simp add: show_int_def)
  qed
  with assms show ?thesis
    by (simp add: atoi_def int_cast_small)
qed

text \<open>
  The decimal text of a GID as \<open>%d\<close> prints it is read back as that GID.
\<close>

lemma gid_field_decimal:
  "word_of_int (atoi (show_int (sint g))) = (g :: gid_t)"
proof -
  have "- (2 ^ 31) \<le> sint g" and "sint g < 2 ^ 31"
    using sint_ge [of g] sint_lt [of g] by simp_all
  then show ?thesis
    by (simp add: atoi_show_int)
qed


subsection \<open>Runs on given files\<close>




lemma strrchr_last: "c \<notin> set b \<Longrightarrow> strrchr (b @ [c]) c = Some (length b)"
  by (induction b) auto

lemma line_body_line: "NL \<notin> set b \<Longrightarrow> line_body (b @ [NL]) = b"
  by (simp add: line_body_def strrchr_last)





































subsection \<open>The probe\<close>

lemma scan_gids_distinct:
  "distinct gids \<Longrightarrow> 0 \<notin> set gids \<Longrightarrow>
   distinct (scan_gids stat_gid mx ds gids) \<and> 0 \<notin> set (scan_gids stat_gid mx ds gids)"
  by (induction ds arbitrary: gids) (auto split: option.splits simp: Let_def)

lemma scan_host_gpu_gids_distinct:
  "distinct (scan_host_gpu_gids stat_gid mx) \<and> 0 \<notin> set (scan_host_gpu_gids stat_gid mx)"
  unfolding scan_host_gpu_gids_def by (rule scan_gids_distinct) simp_all

subsection \<open>A second run on a file of whole lines\<close>

lemma fgets_take_line:
  "NL \<notin> set b \<Longrightarrow> length b < m \<Longrightarrow> fgets_take m (b @ NL # rest) = (b @ [NL], rest)"
proof (induction b arbitrary: m)
  case Nil
  then show ?case by (cases m) auto
next
  case (Cons x b)
  then show ?case by (cases m) auto
qed

lemma fgets_all_lines:
  assumes "2 \<le> n"
    and "\<forall>p \<in> set ps. \<exists>b. p = b @ [NL] \<and> NL \<notin> set b \<and> length p \<le> n - 1"
  shows "fgets_all n (concat ps) = ps"
  using assms(2)
proof (induction ps)
  case Nil
  then show ?case by (simp add: fgets_all_Nil)
next
  case (Cons p ps)
  then obtain b where p: "p = b @ [NL]" and b: "NL \<notin> set b" and len: "length p \<le> n - 1"
    by auto
  have "fgets_take (n - 1) (b @ NL # concat ps) = (b @ [NL], concat ps)"
    using b len p by (intro fgets_take_line) auto
  moreover have "concat (p # ps) \<noteq> []"
    using p by simp
  ultimately have "fgets_all n (concat (p # ps)) = p # fgets_all n (concat ps)"
    using assms(1) p by (simp add: fgets_all_step)
  with Cons show ?case by simp
qed

lemma whole_line:
  assumes "l \<noteq> []" and "last l = NL" and "NL \<notin> set (butlast l)"
  shows "l = line_body l @ [NL] \<and> NL \<notin> set (line_body l)"
proof -
  from assms(1,2) have l: "l = butlast l @ [NL]"
    by (metis append_butlast_last_id)
  with assms(3) line_body_line [of "butlast l"] show ?thesis
    by metis
qed

lemma record_fields_users:
  assumes "record_fields body = Some (pre, gidf, users)"
  shows "record_fields (pre @ '':'' @ users') = Some (pre, gidf, users')"
proof -
  from assms obtain name pw u us where
    ws: "split_on CHR '':'' body = name # pw # gidf # u # us"
    and pre: "pre = name @ '':'' @ pw @ '':'' @ gidf"
    by (auto simp: record_fields_def split: list.splits)
  have nocolon: "CHR '':'' \<notin> set name" "CHR '':'' \<notin> set pw" "CHR '':'' \<notin> set gidf"
    using split_on_elems [of _ "CHR '':''" body] ws by auto
  obtain v vs where v: "split_on CHR '':'' users' = v # vs"
    using split_on_nonempty [of "CHR '':''" users'] by (cases "split_on CHR '':'' users'") auto
  have "split_on CHR '':'' (pre @ '':'' @ users') = name # pw # gidf # v # vs"
    using nocolon v by (simp add: pre split_on_append_sep)
  moreover have "join_on CHR '':'' (v # vs) = users'"
    using join_split [of "CHR '':''" users'] v by simp
  ultimately show ?thesis
    by (simp add: record_fields_def pre)
qed

lemma is_member_root_appended:
  "is_member ''root'' (users @ (if users = [] then ''root'' else '',root''))"
proof -
  have "field_of CHR '','' ''root'' (users @ (if users = [] then ''root'' else '',root''))"
  proof (cases "users = []")
    case True
    then show ?thesis
      unfolding field_of_def by (intro exI [of _ "[]"]) simp
  next
    case False
    then show ?thesis
      unfolding field_of_def by (intro exI [of _ "users @ '',''"] exI [of _ "[]"]) simp
  qed
  then show ?thesis
    by (simp add: is_member_def split_on_member)
qed

text \<open>A line that a run has written is left alone by the next run, with the same mark.\<close>

lemma group_line_settled:
  assumes nul: "NUL \<notin> set l" and len: "length l \<le> 2041"
    and whole: "l \<noteq> []" "last l = NL" "NL \<notin> set (butlast l)"
    and run: "group_line gids l = (p, idx, md)"
  shows "group_line gids p = (p, idx, False) \<and>
         (\<exists>b. p = b @ [NL] \<and> NL \<notin> set b \<and> length p \<le> 2047) \<and> NUL \<notin> set p"
proof -
  have len': "length l \<le> 2047" using len by simp
  from whole_line [OF whole] have l: "l = line_body l @ [NL]" and nl: "NL \<notin> set (line_body l)"
    by blast+
  have keep: "group_line gids l = (l, idx, False) \<Longrightarrow> ?thesis" if "p = l"
    using that l nl nul len' by (metis)
  show ?thesis
  proof (cases "record_fields (line_body l)")
    case None
    with run have "p = l" "idx = None" "md = False"
      by (simp_all add: group_line_spec [OF nul len'])
    with run keep show ?thesis by simp
  next
    case (Some t)
    obtain pre gidf users where t: "t = (pre, gidf, users)" by (cases t) auto
    note rf = Some [unfolded t]
    from record_fields_Some [OF rf] have body: "line_body l = pre @ '':'' @ users" by blast
    show ?thesis
    proof (cases "gid_index gids (word_of_int (atoi gidf))")
      case None
      with run rf have "p = l" "idx = None" "md = False"
        by (simp_all add: group_line_spec [OF nul len'])
      with run keep show ?thesis by simp
    next
      case (Some j)
      show ?thesis
      proof (cases "is_member ''root'' users")
        case True
        with run rf Some have "p = l" "idx = Some j" "md = False"
          by (simp_all add: group_line_spec [OF nul len'])
        with run keep show ?thesis by simp
      next
        case False
        let ?sfx = "if users = [] then ''root'' else '',root''"
        from False run rf Some have p: "p = with_root pre users" and idx: "idx = Some j"
          by (simp_all add: group_line_spec [OF nul len'])
        have p2: "p = (line_body l @ ?sfx) @ [NL]"
          by (simp add: p with_root_def body)
        have nl2: "NL \<notin> set (line_body l @ ?sfx)"
          using nl by (simp add: NL_def)
        have "NUL \<notin> set (line_body l)"
          using nul line_body_subset [of l] by blast
        then have nul2: "NUL \<notin> set p"
          unfolding p2 by (simp add: NUL_def NL_def)
        have "length l = length (line_body l) + 1"
          using l by (metis length_append_singleton Suc_eq_plus1)
        with len have len2: "length p \<le> 2047"
          unfolding p2 by simp
        have lb: "line_body p = pre @ '':'' @ (users @ ?sfx)"
          unfolding p2 using line_body_line [OF nl2] by (simp add: body)
        have "record_fields (line_body p) = Some (pre, gidf, users @ ?sfx)"
          unfolding lb using rf by (rule record_fields_users)
        then have "group_line gids p = (p, Some j, False)"
          using Some is_member_root_appended [of users]
          by (simp add: group_line_spec [OF nul2 len2])
        with idx p2 nl2 len2 nul2 show ?thesis
          by blast
      qed
    qed
  qed
qed

lemma digit_char_in: "digit_char d \<in> set ''0123456789''"
  unfolding digit_char_def by (rule nth_mem) simp

lemma show_nat_chars: "set (show_nat n) \<subseteq> set ''0123456789''"
proof (induction n rule: show_nat.induct)
  case (1 n)
  show ?case
  proof (cases "n < 10")
    case True
    then show ?thesis
      using digit_char_in [of n] by (subst show_nat.simps) simp
  next
    case False
    with 1 have "set (show_nat (n div 10)) \<subseteq> set ''0123456789''" by blast
    with False show ?thesis
      using digit_char_in [of "n mod 10"] by (subst show_nat.simps) simp
  qed
qed

lemma show_int_chars: "set (show_int i) \<subseteq> set ''-0123456789''"
proof (cases "i < 0")
  case True
  have "set (show_nat (nat (- i))) \<subseteq> set ''-0123456789''"
    using show_nat_chars [of "nat (- i)"] by (rule subset_trans) (simp add: subset_iff)
  with True show ?thesis by (simp add: show_int_def)
next
  case False
  have "set (show_nat (nat i)) \<subseteq> set ''-0123456789''"
    using show_nat_chars [of "nat i"] by (rule subset_trans) (simp add: subset_iff)
  with False show ?thesis by (simp add: show_int_def)
qed


lemma show_nat_length: "0 < m \<Longrightarrow> n < 10 ^ m \<Longrightarrow> length (show_nat n) \<le> m"
proof (induction n arbitrary: m rule: show_nat.induct)
  case (1 n)
  show ?case
  proof (cases "n < 10")
    case True
    with 1(2) show ?thesis by (subst show_nat.simps) simp
  next
    case False
    obtain m' where m: "m = Suc m'" using 1(2) by (cases m) auto
    have "m' \<noteq> 0"
    proof
      assume "m' = 0"
      with m 1(3) False show False by simp
    qed
    moreover have "n div 10 < 10 ^ m'"
      using 1(3) m by (simp add: less_mult_imp_div_less mult.commute)
    ultimately have "length (show_nat (n div 10)) \<le> m'"
      using 1(1) [OF False] by simp
    with False m show ?thesis by (subst show_nat.simps) simp
  qed
qed

lemma show_int_gid_length: "length (show_int (sint (g :: gid_t))) \<le> 11"
proof -
  have lo: "- (2 ^ 31) \<le> sint g" and hi: "sint g < 2 ^ 31"
    using sint_ge [of g] sint_lt [of g] by simp_all
  show ?thesis
  proof (cases "sint g < 0")
    case True
    from lo have "nat (- sint g) < 10 ^ 10" by simp
    then have "length (show_nat (nat (- sint g))) \<le> 10"
      by (intro show_nat_length) simp_all
    with True show ?thesis by (simp add: show_int_def)
  next
    case False
    from hi have "nat (sint g) < 10 ^ 10" by simp
    then have "length (show_nat (nat (sint g))) \<le> 10"
      by (intro show_nat_length) simp_all
    with False show ?thesis by (simp add: show_int_def)
  qed
qed


text \<open>The record of a probed GID is a line of that GID with \<open>root\<close> in it.\<close>

lemma gpu_record_settled:
  assumes "g \<in> set gids"
  shows "group_line gids (gpu_record g) = (gpu_record g, gid_index gids g, False) \<and>
         (\<exists>b. gpu_record g = b @ [NL] \<and> NL \<notin> set b \<and> length (gpu_record g) \<le> 2047) \<and>
         NUL \<notin> set (gpu_record g)"
proof -
  let ?S = "show_int (sint g)"
  let ?b = "''gpu_'' @ ?S @ '':x:'' @ ?S @ '':root''"
  have chars: "CHR '':'' \<notin> set ?S" "NL \<notin> set ?S" "NUL \<notin> set ?S"
    using show_int_chars [of "sint g"] by (auto simp: NL_def NUL_def)
  have rec: "gpu_record g = ?b @ [NL]"
    by (simp add: gpu_record_def)
  have nl: "NL \<notin> set ?b"
    using chars by (simp add: NL_def)
  have nul: "NUL \<notin> set (gpu_record g)"
    using chars unfolding rec by (simp add: NUL_def NL_def)
  have len: "length (gpu_record g) \<le> 2047"
    using show_int_gid_length [of g] unfolding rec by simp
  have lb: "line_body (gpu_record g) = ?b"
    unfolding rec by (rule line_body_line [OF nl])
  have split: "split_on CHR '':'' ?b = [''gpu_'' @ ?S, ''x'', ?S, ''root'']"
  proof -
    have "?b = (''gpu_'' @ ?S) @ CHR '':'' # (''x'' @ CHR '':'' # (?S @ CHR '':'' # ''root''))"
      by simp
    then show ?thesis
      using chars(1)
      by (simp only: split_on_append_sep split_on_no_sep)
         (simp add: split_on_append_sep split_on_no_sep)
  qed
  have rf: "record_fields (line_body (gpu_record g))
            = Some (''gpu_'' @ ?S @ '':x:'' @ ?S, ?S, ''root'')"
    unfolding lb record_fields_def split by simp
  have mem: "is_member ''root'' ''root''"
    using is_member_root_appended [of "[]"] by simp
  from assms obtain j where j: "gid_index gids g = Some j"
    using gid_index_None [of gids g] by auto
  have "group_line gids (gpu_record g) = (gpu_record g, gid_index gids g, False)"
    by (simp add: group_line_spec [OF nul len] rf gid_field_decimal j mem)
  with rec nl len nul show ?thesis by blast
qed


lemma gid_index_nth_distinct:
  "distinct gs \<Longrightarrow> j < length gs \<Longrightarrow> gid_index gs (gs ! j) = Some j"
proof (induction gs arbitrary: j)
  case Nil
  then show ?case by simp
next
  case (Cons x xs)
  then show ?case by (cases j) auto
qed

text \<open>
  On a group file without NUL bytes whose lines all end with a newline and have at
  most 2041 bytes, with distinct probed GIDs and every call succeeding, a second run
  leaves the file of the first run and calls no \<open>rename\<close>.
\<close>

lemma setup_gpu_groups_second_run:
  assumes nul: "NUL \<notin> set bytes"
    and whole: "\<forall>l \<in> set (fgets_all 2048 bytes). last l = NL \<and> length l \<le> 2041"
    and gids: "gids \<noteq> []" "distinct gids"
  shows "\<exists>f1. group_after (setup_gpu_groups (group_file bytes) gids) = Some f1 \<and>
              group_after (setup_gpu_groups (group_file f1) gids) = Some f1 \<and>
              \<not> rename_called (setup_gpu_groups (group_file f1) gids)"
proof -
  let ?ls = "fgets_all 2048 bytes"
  let ?P = "group_pieces gids bytes"
  let ?M = "group_missing gids bytes"
  let ?out = "concat ?P @ concat (map gpu_record ?M)"
  let ?r1 = "setup_gpu_groups (group_file bytes) gids"
  have env: "etc_group (group_file b) = Some b" "fin_ok (group_file b)"
    "fout_ok (group_file b)" "calloc_ok (group_file b)" "rename_ok (group_file b)" for b
    by (simp_all add: group_file_def)
  note run1 = setup_gpu_groups_run [OF env(1-4) gids(1), of bytes]
  show ?thesis
  proof (cases "rename_called ?r1")
    case False
    then have "group_after ?r1 = Some bytes"
      using run1(3) by simp
    with False show ?thesis by simp
  next
    case True
    then have after: "group_after ?r1 = Some ?out"
      using run1(1,3) env(5) by simp
    have line: "group_line gids l = (fst (group_line gids l), fst (snd (group_line gids l)),
                                     snd (snd (group_line gids l)))" for l
      by simp
    have piece: "group_line gids (fst (group_line gids l))
                   = (fst (group_line gids l), fst (snd (group_line gids l)), False) \<and>
                 (\<exists>b. fst (group_line gids l) = b @ [NL] \<and> NL \<notin> set b
                      \<and> length (fst (group_line gids l)) \<le> 2047) \<and>
                 NUL \<notin> set (fst (group_line gids l))"
      if l: "l \<in> set ?ls" for l
    proof -
      from fgets_all_buffers [OF l] have "l \<noteq> []" by blast
      moreover from whole l have "last l = NL" "length l \<le> 2041" by blast+
      ultimately show ?thesis
        using group_buffer(1,3) [OF nul l]
        by (intro group_line_settled [OF _ _ _ _ _ line [of l]]) auto
    qed
    have missing_sub: "set ?M \<subseteq> set gids"
      unfolding group_missing_iff [abs_def] by (auto simp: subset_iff group_missing_iff)
    let ?ls2 = "?P @ map gpu_record ?M"
    have settled: "\<exists>idx. group_line gids p = (p, idx, False)" 
      and shape: "\<exists>b. p = b @ [NL] \<and> NL \<notin> set b \<and> length p \<le> 2048 - 1"
      and pnul: "NUL \<notin> set p"
      if p: "p \<in> set ?ls2" for p
    proof -
      from p consider l where "l \<in> set ?ls" "p = fst (group_line gids l)"
        | g where "g \<in> set ?M" "p = gpu_record g"
        by (auto simp: group_pieces_def)
      then have "(\<exists>idx. group_line gids p = (p, idx, False)) \<and>
                 (\<exists>b. p = b @ [NL] \<and> NL \<notin> set b \<and> length p \<le> 2047) \<and> NUL \<notin> set p"
      proof cases
        case 1
        with piece [OF 1(1)] show ?thesis by blast
      next
        case 2
        with missing_sub have "g \<in> set gids" by blast
        from gpu_record_settled [OF this] 2(2) show ?thesis by blast
      qed
      then show "\<exists>idx. group_line gids p = (p, idx, False)"
        and "\<exists>b. p = b @ [NL] \<and> NL \<notin> set b \<and> length p \<le> 2048 - 1"
        and "NUL \<notin> set p"
        by simp_all
    qed
    have out: "?out = concat ?ls2"
      by simp
    have ls2: "fgets_all 2048 ?out = ?ls2"
      unfolding out by (rule fgets_all_lines) (use shape in auto)
    have nul2: "NUL \<notin> set ?out"
      unfolding out using pnul by (auto simp del: concat_append map_append)
    note run2 = setup_gpu_groups_run [OF env(1-4) gids(1), of ?out]
    have nomod: "\<not> (\<exists>l \<in> set (fgets_all 2048 ?out). snd (snd (group_line gids l)))"
      unfolding ls2 using settled by fastforce
    have allfound: "group_found gids ?out ! j" if j: "j < length gids" for j
    proof (cases "group_found gids bytes ! j")
      case True
      with group_found_nth [OF j, of bytes] obtain l where
        l: "l \<in> set ?ls" and idx: "fst (snd (group_line gids l)) = Some j"
        by blast
      have "fst (group_line gids l) \<in> set ?ls2"
        using l by (simp add: group_pieces_def)
      moreover have "fst (snd (group_line gids (fst (group_line gids l)))) = Some j"
        using piece [OF l] idx by simp
      ultimately show ?thesis
        unfolding group_found_nth [OF j] ls2 by blast
    next
      case False
      with j have "gids ! j \<in> set ?M"
        unfolding group_missing_iff by blast
      then have "gpu_record (gids ! j) \<in> set ?ls2"
        by simp
      moreover have "fst (snd (group_line gids (gpu_record (gids ! j)))) = Some j"
        using gpu_record_settled [of "gids ! j" gids] j gid_index_nth_distinct [OF gids(2) j]
        by simp
      ultimately show ?thesis
        unfolding group_found_nth [OF j] ls2 by blast
    qed
    then have nomissing: "group_missing gids ?out = []"
      using group_missing_iff [of _ gids ?out] by (metis all_not_in_conv set_empty)
    from run2(2) nomod nomissing have "\<not> rename_called (setup_gpu_groups (group_file ?out) gids)"
      by simp
    moreover from this run2(3)
    have "group_after (setup_gpu_groups (group_file ?out) gids) = Some ?out"
      by simp
    ultimately show ?thesis
      using after by blast
  qed
qed

text \<open>
  C3, at the failing input: the group file is the one line \<open>video:x:44:root\<close> with no
  newline after it, and the probed GID 240 has no line. The first run writes the new
  record straight after that line; in the file it leaves, the second run finds no
  line with GID 240 and appends the record again.
\<close>

theorem setup_gpu_groups_second_run_differs:
  "group_after (setup_gpu_groups (group_file ''video:x:44:root'') [240])
     = Some (''video:x:44:rootgpu_240:x:240:root'' @ [NL]) \<and>
   group_after (setup_gpu_groups
                  (group_file (''video:x:44:rootgpu_240:x:240:root'' @ [NL])) [240])
     = Some (''video:x:44:rootgpu_240:x:240:root'' @ [NL] @ ''gpu_240:x:240:root'' @ [NL]) \<and>
   rename_called (setup_gpu_groups
                  (group_file (''video:x:44:rootgpu_240:x:240:root'' @ [NL])) [240])"
  by code_simp

theorem setup_gpu_groups_second_run_differs_witness:
  "group_after (setup_gpu_groups
                  (group_file (''video:x:44:rootgpu_240:x:240:root'' @ [NL])) [240])
     \<noteq> Some (''video:x:44:rootgpu_240:x:240:root'' @ [NL])"
  using setup_gpu_groups_second_run_differs by simp


end
